theory Spec2Isabelle
  imports Main "HOL-Library.Word"
begin

section \<open>Tegra graphics host automatic clock management (nvhost_acm.c)\<close>

text \<open>
  The driver runs on 32-bit ARM (mach-tegra): \<open>unsigned long\<close>, \<open>long\<close> and \<open>int\<close> are
  32 bits wide.  Clock rates are \<open>unsigned long\<close>; the reference count is an \<open>atomic_t\<close>,
  a 32-bit counter whose arithmetic wraps and which the code only ever compares with
  \<open>==\<close>; \<open>sint\<close> reads it as the signed value the C code sees.
\<close>

type_synonym rate = "32 word"

text \<open>
  A \<open>struct clk *\<close>: the null pointer, an error-encoded pointer (what \<open>IS_ERR\<close> detects),
  or a handle on a clock.
\<close>

datatype clk = Clk_null | Clk_err | Clk nat

definition IS_ERR_OR_NULL :: "clk \<Rightarrow> bool" where
  "IS_ERR_OR_NULL c = (case c of Clk_null \<Rightarrow> True | Clk_err \<Rightarrow> True | Clk _ \<Rightarrow> False)"

definition EINVAL :: int where "EINVAL = 22"
definition ENOMEM :: int where "ENOMEM = 12"

text \<open>
  The fatal ways out: \<open>BUG_ON\<close> firing, and an array read or written outside its bounds
  (undefined behaviour in C, kept apart from every defined result).
\<close>

datatype fatal = BUG | Out_of_bounds

text \<open>
  Calls into the kernel and into the descriptor's hooks are recorded, in program order,
  as events.  A module is named in an event by its address (field \<open>self\<close> below).
\<close>

text \<open>
  The cursor of a \<open>list_for_each_entry\<close> loop over the client list.  Inside the loop
  it points at a client record.  When the loop runs to its end the cursor is
  \<open>container_of\<close> applied to the list head: the address of the \<open>client_list\<close> field
  of the module (the \<open>node\<close> field is the first of the client record), read as if it
  were a client record.  It is never the null pointer.
\<close>

datatype client_cursor = Null_cursor | Entry nat | Head_container nat

datatype event =
    Mutex_lock nat
  | Mutex_unlock nat
  | Client_list_lock
  | Client_list_unlock
  | Cancel_delayed_work nat
  | Schedule_delayed_work nat int
  | Wake_up nat
  | Desc_busy nat
  | Desc_idle nat
  | Desc_finalize_poweron nat
  | Desc_prepare_poweroff nat
  | Desc_suspend nat
  | Tegra_unpowergate_partition int
  | Tegra_powergate_partition int
  | Clk_enable clk
  | Clk_disable clk
  | Clk_get_rate clk
  | Clk_set_rate clk rate
  | Kfree client_cursor
  | Debug_not_idle nat
  | Nvhost_debug_dump

record nvhost_clock =
  default_rate :: rate

text \<open>
  \<open>struct nvhost_moduledesc\<close>.  A hook field is \<open>True\<close> when the function pointer is not
  null.  Calling a hook is a call out of this file: it is recorded as an event and does
  not write the fields of the module.  \<open>powergate_ids\<close> holds the two partition ids,
  \<open>-1\<close> for none.
\<close>

record nvhost_moduledesc =
  busy :: bool
  idle :: bool
  finalize_poweron :: bool
  prepare_poweroff :: bool
  suspend :: bool
  clocks :: "nvhost_clock list"
  powergate_ids :: "int \<times> int"
  can_powergate :: bool
  powerdown_delay :: int

text \<open>\<open>struct nvhost_module_client\<close>: the votes, one per clock index, and the owner's token.\<close>

record nvhost_module_client =
  rate :: "rate list"
  priv :: nat

text \<open>
  \<open>struct nvhost_module\<close>.  \<open>self\<close> is the address of the object, which also identifies
  its mutex, its delayed work and its wait queue; \<open>powerdown\<close> tells whether the delayed
  work is pending; \<open>clk\<close> is the array of \<open>NVHOST_MODULE_MAX_CLOCKS\<close> handles, the
  constant being the length of the list; \<open>parent\<close> is the parent module, if any.
\<close>

datatype nvhost_module = Nvhost_module
  (self: nat)
  (desc: nvhost_moduledesc)
  (refcount: "32 word")
  (powered: bool)
  (num_clks: nat)
  (clk: "clk list")
  (client_list: "nvhost_module_client list")
  (powerdown: bool)
  (parent: "nvhost_module option")

definition set_refcount :: "32 word \<Rightarrow> nvhost_module \<Rightarrow> nvhost_module" where
  "set_refcount r m = Nvhost_module (self m) (desc m) r (powered m) (num_clks m) (clk m)
     (client_list m) (powerdown m) (parent m)"

definition set_powered :: "bool \<Rightarrow> nvhost_module \<Rightarrow> nvhost_module" where
  "set_powered b m = Nvhost_module (self m) (desc m) (refcount m) b (num_clks m) (clk m)
     (client_list m) (powerdown m) (parent m)"

definition set_client_list :: "nvhost_module_client list \<Rightarrow> nvhost_module \<Rightarrow> nvhost_module" where
  "set_client_list cs m = Nvhost_module (self m) (desc m) (refcount m) (powered m) (num_clks m)
     (clk m) cs (powerdown m) (parent m)"

definition set_powerdown :: "bool \<Rightarrow> nvhost_module \<Rightarrow> nvhost_module" where
  "set_powerdown b m = Nvhost_module (self m) (desc m) (refcount m) (powered m) (num_clks m)
     (clk m) (client_list m) b (parent m)"

definition set_parent :: "nvhost_module option \<Rightarrow> nvhost_module \<Rightarrow> nvhost_module" where
  "set_parent p m = Nvhost_module (self m) (desc m) (refcount m) (powered m) (num_clks m)
     (clk m) (client_list m) (powerdown m) p"

text \<open>
  What the clock framework, the allocator and the prepare-power-off hook answer is not
  decided by this file.  Each answer is a function of the calls made so far, so that a
  hook may refuse a few times and then accept; \<open>clk_round_rate\<close> is a query on the
  clock's table of achievable rates and depends on its arguments only.
\<close>

record env =
  clk_round_rate :: "clk \<Rightarrow> rate \<Rightarrow> rate"
  clk_get_rate :: "event list \<Rightarrow> clk \<Rightarrow> rate"
  clk_set_rate :: "event list \<Rightarrow> clk \<Rightarrow> rate \<Rightarrow> int"
  prepare_poweroff_ret :: "event list \<Rightarrow> nat \<Rightarrow> int"
  kzalloc_fails :: "event list \<Rightarrow> bool"

subsection \<open>Power coordinator\<close>

definition clock_enable :: "nvhost_module \<Rightarrow> event list \<Rightarrow> event list" where
  "clock_enable m tr = tr @ map Clk_enable (take (num_clks m) (clk m))"

definition unpowergate :: "nvhost_module \<Rightarrow> event list \<Rightarrow> event list" where
  "unpowergate m tr =
     (if can_powergate (desc m) then
        tr @ (if fst (powergate_ids (desc m)) \<noteq> -1
              then [Tegra_unpowergate_partition (fst (powergate_ids (desc m)))] else [])
           @ (if snd (powergate_ids (desc m)) \<noteq> -1
              then [Tegra_unpowergate_partition (snd (powergate_ids (desc m)))] else [])
      else tr)"

text \<open>
  \<open>nvhost_module_busy\<close>.  The recursion follows the parent pointer; the parent is updated
  in place, so the module returned carries the parent as the call left it.
\<close>

fun nvhost_module_busy :: "env \<Rightarrow> nvhost_module \<Rightarrow> event list \<Rightarrow> nvhost_module \<times> event list" where
  "nvhost_module_busy e (Nvhost_module s d r pw n c cl pd par) tr =
     (let tr1 = tr @ [Mutex_lock s, Cancel_delayed_work s];
          tr2 = (if busy d then tr1 @ [Desc_busy s] else tr1);
          r' = r + 1
      in if r' = 1 \<and> \<not> pw then
           (let (par', tr3) = (case par of None \<Rightarrow> (None, tr2)
                                | Some p \<Rightarrow> (let (p', t) = nvhost_module_busy e p tr2
                                             in (Some p', t)));
                m = Nvhost_module s d r' pw n c cl False par';
                tr4 = unpowergate m tr3;
                tr5 = clock_enable m tr4;
                tr6 = (if finalize_poweron d then tr5 @ [Desc_finalize_poweron s] else tr5)
            in (set_powered True m, tr6 @ [Mutex_unlock s]))
         else (Nvhost_module s d r' pw n c cl False par, tr2 @ [Mutex_unlock s]))"

definition clock_disable :: "nvhost_module \<Rightarrow> event list \<Rightarrow> event list" where
  "clock_disable m tr = tr @ map Clk_disable (take (num_clks m) (clk m))"

definition powergate :: "nvhost_module \<Rightarrow> event list \<Rightarrow> event list" where
  "powergate m tr =
     (if can_powergate (desc m) then
        tr @ (if fst (powergate_ids (desc m)) \<noteq> -1
              then [Tegra_powergate_partition (fst (powergate_ids (desc m)))] else [])
           @ (if snd (powergate_ids (desc m)) \<noteq> -1
              then [Tegra_powergate_partition (snd (powergate_ids (desc m)))] else [])
      else tr)"

text \<open>
  \<open>nvhost_module_idle_mult\<close>.  \<open>atomic_sub_return\<close> stores the difference before the test,
  and \<open>BUG_ON\<close> ends the call there.
\<close>

definition nvhost_module_idle_mult ::
    "env \<Rightarrow> nvhost_module \<Rightarrow> 32 word \<Rightarrow> event list \<Rightarrow> fatal + nvhost_module \<times> event list" where
  "nvhost_module_idle_mult e m refs tr =
     (let tr1 = tr @ [Mutex_lock (self m)];
          m1 = set_refcount (refcount m - refs) m
      in if refcount m1 = 0 then
           (if \<not> powered m1 then Inl BUG
            else
              (let tr2 = tr1 @ [Schedule_delayed_work (self m) (powerdown_delay (desc m)),
                                Mutex_unlock (self m), Wake_up (self m)];
                   tr3 = (if idle (desc m) then tr2 @ [Desc_idle (self m)] else tr2)
               in Inr (set_powerdown True m1, tr3)))
         else Inr (m1, tr1 @ [Mutex_unlock (self m)]))"

text \<open>
  Modelled from the spec: \<open>nvhost_module_idle\<close> is declared in nvhost_acm.h, which is not
  part of the sources at hand; the specification calls it \<open>idle(1)\<close>.
\<close>

definition nvhost_module_idle ::
    "env \<Rightarrow> nvhost_module \<Rightarrow> event list \<Rightarrow> fatal + nvhost_module \<times> event list" where
  "nvhost_module_idle e m tr = nvhost_module_idle_mult e m 1 tr"

text \<open>
  \<open>powerdown_handler\<close>, the body of the delayed work.  The hook is called only when the
  pointer is set (\<open>&&\<close> short-circuits); a non-zero answer means still busy.
\<close>

definition powerdown_handler ::
    "env \<Rightarrow> nvhost_module \<Rightarrow> event list \<Rightarrow> fatal + nvhost_module \<times> event list" where
  "powerdown_handler e m tr =
     (let tr1 = tr @ [Mutex_lock (self m)]
      in if refcount m = 0 \<and> powered m then
           (if prepare_poweroff (desc m) \<and> prepare_poweroff_ret e tr1 (self m) \<noteq> 0 then
              Inr (set_powerdown True m,
                   tr1 @ [Desc_prepare_poweroff (self m), Mutex_unlock (self m),
                          Schedule_delayed_work (self m) (powerdown_delay (desc m))])
            else
              (let tr2 = (if prepare_poweroff (desc m)
                          then tr1 @ [Desc_prepare_poweroff (self m)] else tr1);
                   tr3 = clock_disable m tr2;
                   tr4 = powergate m tr3;
                   m1 = set_powered False m
               in case parent m of
                    None \<Rightarrow> Inr (m1, tr4 @ [Mutex_unlock (self m)])
                  | Some p \<Rightarrow>
                      (case nvhost_module_idle e p tr4 of
                         Inl f \<Rightarrow> Inl f
                       | Inr (p', tr5) \<Rightarrow>
                           Inr (set_parent (Some p') m1, tr5 @ [Mutex_unlock (self m)]))))
         else Inr (m, tr1 @ [Mutex_unlock (self m)]))"

text \<open>
  The kernel's delayed work, as far as this file relies on it: \<open>schedule_delayed_work\<close>
  makes the work pending, \<open>cancel_delayed_work\<close> clears that, and when the timer fires
  (or \<open>flush_delayed_work\<close> forces it) a pending work stops being pending and its
  handler runs; a work that is not pending does not run.
\<close>

definition delayed_work_run ::
    "env \<Rightarrow> nvhost_module \<Rightarrow> event list \<Rightarrow> fatal + nvhost_module \<times> event list" where
  "delayed_work_run e m tr =
     (if powerdown m then powerdown_handler e (set_powerdown False m) tr else Inr (m, tr))"

text \<open>
  \<open>nvhost_module_get_rate\<close>.  The result is the return code, the value stored through
  the \<open>rate\<close> pointer (if any), and the module.
\<close>

definition in_bounds :: "'a list \<Rightarrow> int \<Rightarrow> bool" where
  "in_bounds xs i = (0 \<le> i \<and> nat i < length xs)"

definition nvhost_module_get_rate ::
    "env \<Rightarrow> nvhost_module \<Rightarrow> int \<Rightarrow> event list
       \<Rightarrow> fatal + int \<times> rate option \<times> nvhost_module \<times> event list" where
  "nvhost_module_get_rate e m index tr =
     (if \<not> in_bounds (clk m) index then Inl Out_of_bounds
      else
        (let c = clk m ! nat index
         in if IS_ERR_OR_NULL c then Inr (- EINVAL, None, m, tr)
            else
              (let (m1, tr1) = nvhost_module_busy e m tr;
                   r = clk_get_rate e tr1 c
               in case nvhost_module_idle e m1 (tr1 @ [Clk_get_rate c]) of
                    Inl f \<Rightarrow> Inl f
                  | Inr (m2, tr2) \<Rightarrow> Inr (0, Some r, m2, tr2))))"

subsection \<open>Client rate registry\<close>

text \<open>The loop of \<open>nvhost_module_update_rate\<close>: the running maximum of the votes.\<close>

fun max_rate :: "nvhost_module_client list \<Rightarrow> nat \<Rightarrow> rate \<Rightarrow> fatal + rate" where
  "max_rate [] i r = Inr r"
| "max_rate (m # ms) i r =
     (if i < length (rate m) then max_rate ms i (max (rate m ! i) r) else Inl Out_of_bounds)"

definition nvhost_module_update_rate ::
    "env \<Rightarrow> nvhost_module \<Rightarrow> int \<Rightarrow> event list \<Rightarrow> fatal + int \<times> event list" where
  "nvhost_module_update_rate e m index tr =
     (if \<not> in_bounds (clk m) index then Inl Out_of_bounds
      else
        (let c = clk m ! nat index
         in if c = Clk_null then Inr (- EINVAL, tr)
            else
              (case max_rate (client_list m) (nat index) 0 of
                 Inl f \<Rightarrow> Inl f
               | Inr r \<Rightarrow>
                   if r = 0 then
                     (if \<not> in_bounds (clocks (desc m)) index then Inl Out_of_bounds
                      else
                        (let r' = clk_round_rate e c (default_rate (clocks (desc m) ! nat index))
                         in Inr (clk_set_rate e tr c r', tr @ [Clk_set_rate c r'])))
                   else Inr (clk_set_rate e tr c r, tr @ [Clk_set_rate c r]))))"

text \<open>
  The loop of \<open>nvhost_module_set_rate\<close>: the first record of the token gets the rounded
  rate as its vote; \<open>mod->clk[index]\<close> is read only when a record matches.
\<close>

fun store_rate ::
    "env \<Rightarrow> clk list \<Rightarrow> nat \<Rightarrow> rate \<Rightarrow> int \<Rightarrow> nvhost_module_client list
       \<Rightarrow> fatal + nvhost_module_client list" where
  "store_rate e cks p r index [] = Inr []"
| "store_rate e cks p r index (m # ms) =
     (if priv m = p then
        (if \<not> in_bounds cks index \<or> \<not> in_bounds (rate m) index then Inl Out_of_bounds
         else Inr (m\<lparr>rate := (rate m)[nat index := clk_round_rate e (cks ! nat index) r]\<rparr> # ms))
      else
        (case store_rate e cks p r index ms of
           Inl f \<Rightarrow> Inl f
         | Inr ms' \<Rightarrow> Inr (m # ms')))"

definition nvhost_module_set_rate ::
    "env \<Rightarrow> nvhost_module \<Rightarrow> nat \<Rightarrow> rate \<Rightarrow> int \<Rightarrow> event list
       \<Rightarrow> fatal + int \<times> nvhost_module \<times> event list" where
  "nvhost_module_set_rate e m p r index tr =
     (case store_rate e (clk m) p r index (client_list m) of
        Inl f \<Rightarrow> Inl f
      | Inr cs \<Rightarrow>
          (let m1 = set_client_list cs m
           in case nvhost_module_update_rate e m1 index (tr @ [Client_list_lock]) of
                Inl f \<Rightarrow> Inl f
              | Inr (ret, tr1) \<Rightarrow> Inr (ret, m1, tr1 @ [Client_list_unlock])))"

text \<open>
  \<open>nvhost_module_add_client\<close>.  \<open>kzalloc\<close> zeroes the record, so the votes beyond
  \<open>num_clks\<close> are 0.
\<close>

definition nvhost_module_add_client ::
    "env \<Rightarrow> nvhost_module \<Rightarrow> nat \<Rightarrow> event list
       \<Rightarrow> fatal + int \<times> nvhost_module \<times> event list" where
  "nvhost_module_add_client e m p tr =
     (if kzalloc_fails e tr then Inr (- ENOMEM, m, tr)
      else if length (clk m) < num_clks m \<or> length (clocks (desc m)) < num_clks m
      then Inl Out_of_bounds
      else
        (let client = \<lparr>rate = map (\<lambda>i. if i < num_clks m
                                         then clk_round_rate e (clk m ! i)
                                                (default_rate (clocks (desc m) ! i))
                                         else 0) [0..<length (clk m)],
                       priv = p\<rparr>
         in Inr (0, set_client_list (client_list m @ [client]) m,
                 tr @ [Client_list_lock, Client_list_unlock])))"

text \<open>
  The loop of \<open>nvhost_module_remove_client\<close>: the cursor it ends with, and the list
  after \<open>list_del\<close>.
\<close>

fun find_del ::
    "nat \<Rightarrow> nat \<Rightarrow> nvhost_module_client list \<Rightarrow> client_cursor \<times> nvhost_module_client list" where
  "find_del s p [] = (Head_container s, [])"
| "find_del s p (m # ms) =
     (if p = priv m then (Entry (priv m), ms)
      else (let (cur, ms') = find_del s p ms in (cur, m # ms')))"

text \<open>The loop over the clock indices; the return code of each update is dropped.\<close>

fun update_rates :: "env \<Rightarrow> nvhost_module \<Rightarrow> nat list \<Rightarrow> event list \<Rightarrow> fatal + event list" where
  "update_rates e m [] tr = Inr tr"
| "update_rates e m (i # is) tr =
     (case nvhost_module_update_rate e m (int i) tr of
        Inl f \<Rightarrow> Inl f
      | Inr (ret, tr') \<Rightarrow> update_rates e m is tr')"

definition nvhost_module_remove_client ::
    "env \<Rightarrow> nvhost_module \<Rightarrow> nat \<Rightarrow> event list \<Rightarrow> fatal + nvhost_module \<times> event list" where
  "nvhost_module_remove_client e m p tr =
     (let tr1 = tr @ [Client_list_lock];
          (cur, cs) = find_del (self m) p (client_list m);
          m1 = set_client_list cs m
      in if cur \<noteq> Null_cursor then
           (case update_rates e m1 [0..<num_clks m1] (tr1 @ [Kfree cur]) of
              Inl f \<Rightarrow> Inl f
            | Inr tr2 \<Rightarrow> Inr (m1, tr2 @ [Client_list_unlock]))
         else Inr (m1, tr1 @ [Client_list_unlock]))"

subsection \<open>Suspend\<close>

definition is_module_idle :: "nvhost_module \<Rightarrow> event list \<Rightarrow> bool \<times> event list" where
  "is_module_idle m tr = (refcount m = 0, tr @ [Mutex_lock (self m), Mutex_unlock (self m)])"

text \<open>
  \<open>nvhost_module_suspend\<close>, run with no other thread touching the module.
  \<open>wait_event_timeout\<close> tests its condition and returns at once, with a value above 0,
  when it holds.  Otherwise it enters its loop, tests the condition a second time and
  sleeps; with nobody to wake it the sleep ends with the timeout and the result is 0.
\<close>

definition nvhost_module_suspend ::
    "env \<Rightarrow> nvhost_module \<Rightarrow> bool \<Rightarrow> event list \<Rightarrow> fatal + nvhost_module \<times> event list" where
  "nvhost_module_suspend e m system_suspend tr =
     (let tr1 = (if system_suspend then
                   (let (i, t) = is_module_idle m tr
                    in if \<not> i then t @ [Debug_not_idle (self m)] else t)
                 else tr);
          (i, tr2) = is_module_idle m tr1;
          tr3 = (if i then tr2
                 else (let (i', t) = is_module_idle m tr2
                       in if i' then t else t @ [Nvhost_debug_dump]))
      in case delayed_work_run e m tr3 of
           Inl f \<Rightarrow> Inl f
         | Inr (m1, tr4) \<Rightarrow>
             (let tr5 = (if suspend (desc m1) then tr4 @ [Desc_suspend (self m1)] else tr4)
              in if powered m1 then Inl BUG else Inr (m1, tr5)))"

subsection \<open>Notions the properties are stated with\<close>

text \<open>
  A run of calls to \<open>busy()\<close> and \<open>idle(n)\<close> on one module, and the number of
  \<open>busy()\<close> calls in it that find the count at 0 and the module unpowered.  A fatal
  \<open>idle\<close> ends the run.
\<close>

datatype acm_call = Busy | Idle "32 word"

fun power_ups :: "env \<Rightarrow> acm_call list \<Rightarrow> nvhost_module \<Rightarrow> event list \<Rightarrow> nat" where
  "power_ups e [] m tr = 0"
| "power_ups e (Busy # cs) m tr =
     (if refcount m = 0 \<and> \<not> powered m then 1 else 0)
       + (let (m', tr') = nvhost_module_busy e m tr in power_ups e cs m' tr')"
| "power_ups e (Idle n # cs) m tr =
     (case nvhost_module_idle_mult e m n tr of
        Inl f \<Rightarrow> 0
      | Inr (m', tr') \<Rightarrow> power_ups e cs m' tr')"

text \<open>The delayed work firing \<open>n\<close> times in a row.\<close>

fun delayed_work_runs ::
    "env \<Rightarrow> nat \<Rightarrow> nvhost_module \<Rightarrow> event list \<Rightarrow> fatal + nvhost_module \<times> event list" where
  "delayed_work_runs e 0 m tr = Inr (m, tr)"
| "delayed_work_runs e (Suc n) m tr =
     (case delayed_work_run e m tr of
        Inl f \<Rightarrow> Inl f
      | Inr (m', tr') \<Rightarrow> delayed_work_runs e n m' tr')"

text \<open>What one refused power-down attempt leaves in the trace.\<close>

definition retry_events :: "nvhost_module \<Rightarrow> event list" where
  "retry_events m =
     [Mutex_lock (self m), Desc_prepare_poweroff (self m), Mutex_unlock (self m),
      Schedule_delayed_work (self m) (powerdown_delay (desc m))]"

text \<open>The addresses of the ancestors of a module, nearest first.\<close>

fun ancestors :: "nvhost_module \<Rightarrow> nat list" where
  "ancestors (Nvhost_module s d r pw n c cl pd par) =
     (case par of None \<Rightarrow> [] | Some p \<Rightarrow> self p # ancestors p)"

text \<open>
  The mutexes held after each event of a trace, and whether two of them are ever held
  at the same moment.
\<close>

fun lock_step :: "nat set \<Rightarrow> event \<Rightarrow> nat set" where
  "lock_step H (Mutex_lock a) = insert a H"
| "lock_step H (Mutex_unlock a) = H - {a}"
| "lock_step H ev = H"

fun both_held :: "nat set \<Rightarrow> nat \<Rightarrow> nat \<Rightarrow> event list \<Rightarrow> bool" where
  "both_held H a b [] = (a \<in> H \<and> b \<in> H)"
| "both_held H a b (ev # tr) = ((a \<in> H \<and> b \<in> H) \<or> both_held (lock_step H ev) a b tr)"

text \<open>
  The rate last applied to a clock: the argument of the latest \<open>clk_set_rate\<close> on it.
\<close>

fun set_rate_of :: "clk \<Rightarrow> event \<Rightarrow> rate option" where
  "set_rate_of c (Clk_set_rate c' r) = (if c' = c then Some r else None)"
| "set_rate_of c ev = None"

definition applied_rate :: "event list \<Rightarrow> clk \<Rightarrow> rate option" where
  "applied_rate tr c =
     (case List.map_filter (set_rate_of c) tr of [] \<Rightarrow> None | x # xs \<Rightarrow> Some (last (x # xs)))"

text \<open>
  The effective rate in the specification's words: the maximum of the current client
  votes for the index, or the rounded default of the descriptor when no client votes on
  it.  A vote of 0 is no vote.
\<close>

definition votes :: "nvhost_module \<Rightarrow> nat \<Rightarrow> rate list" where
  "votes m i = filter (\<lambda>r. r \<noteq> 0) (map (\<lambda>c. rate c ! i) (client_list m))"

definition effective_rate_spec :: "env \<Rightarrow> nvhost_module \<Rightarrow> nat \<Rightarrow> rate" where
  "effective_rate_spec e m i =
     (if votes m i = [] then clk_round_rate e (clk m ! i) (default_rate (clocks (desc m) ! i))
      else Max (set (votes m i)))"

subsection \<open>A host with one channel\<close>

text \<open>
  Rounding keeps the rate; every \<open>clk_set_rate\<close> succeeds; the prepare-power-off hook
  refuses its first two calls and accepts from the third on.
\<close>

definition env0 :: env where
  "env0 = \<lparr>clk_round_rate = (\<lambda>c r. r),
           clk_get_rate = (\<lambda>tr c. 100),
           clk_set_rate = (\<lambda>tr c r. 0),
           prepare_poweroff_ret =
             (\<lambda>tr s. if length (filter (\<lambda>ev. ev = Desc_prepare_poweroff s) tr) < 2 then 1 else 0),
           kzalloc_fails = (\<lambda>tr. False)\<rparr>"

definition desc0 :: nvhost_moduledesc where
  "desc0 = \<lparr>busy = False, idle = False, finalize_poweron = True, prepare_poweroff = True,
            suspend = False,
            clocks = [\<lparr>default_rate = 100\<rparr>, \<lparr>default_rate = 200\<rparr>, \<lparr>default_rate = 0\<rparr>],
            powergate_ids = (3, -1), can_powergate = True, powerdown_delay = 50\<rparr>"

definition host0 :: nvhost_module where
  "host0 = Nvhost_module 1 desc0 0 False 2 [Clk 10, Clk 11, Clk_null] [] False None"

definition chan0 :: nvhost_module where
  "chan0 = Nvhost_module 2 desc0 0 False 2 [Clk 20, Clk 21, Clk_null] [] False (Some host0)"

text \<open>The channel and its host after one \<open>busy()\<close> on the channel.\<close>

definition host1 :: nvhost_module where
  "host1 = Nvhost_module 1 desc0 1 True 2 [Clk 10, Clk 11, Clk_null] [] False None"

definition chan1 :: nvhost_module where
  "chan1 = Nvhost_module 2 desc0 1 True 2 [Clk 20, Clk 21, Clk_null] [] False (Some host1)"

text \<open>The channel with its count back at 0, still powered, the delayed work pending.\<close>

definition chan2 :: nvhost_module where
  "chan2 = Nvhost_module 2 desc0 0 True 2 [Clk 20, Clk 21, Clk_null] [] True (Some host1)"

text \<open>
  The host with one registered client (token 5), the same after that client voted 50 on
  clock 0, and with a second client (token 6) registered after that vote.
\<close>

definition host_a :: nvhost_module where
  "host_a = set_client_list [\<lparr>rate = [100, 200, 0], priv = 5\<rparr>] host0"

definition host_a50 :: nvhost_module where
  "host_a50 = set_client_list [\<lparr>rate = [50, 200, 0], priv = 5\<rparr>] host0"

definition host_ab :: nvhost_module where
  "host_ab = set_client_list
     [\<lparr>rate = [50, 200, 0], priv = 5\<rparr>, \<lparr>rate = [100, 200, 0], priv = 6\<rparr>] host0"

text \<open>The host after an \<open>idle(1)\<close> that no \<open>busy()\<close> preceded: the count is \<open>-1\<close>.\<close>

definition host_neg :: nvhost_module where
  "host_neg = Nvhost_module 1 desc0 (- 1) False 2 [Clk 10, Clk 11, Clk_null] [] False None"

text \<open>The same environment with a prepare-power-off hook that always accepts.\<close>

definition env1 :: env where
  "env1 = env0\<lparr>prepare_poweroff_ret := (\<lambda>tr s. 0)\<rparr>"

definition chan3 :: nvhost_module where
  "chan3 = Nvhost_module 2 desc0 0 True 2 [Clk 20, Clk 21, Clk_null] [] False (Some host1)"

section \<open>Properties\<close>

subsection \<open>Field updates\<close>


lemma sel_set_refcount [simp]:
  "self (set_refcount r m) = self m" "desc (set_refcount r m) = desc m"
  "refcount (set_refcount r m) = r" "powered (set_refcount r m) = powered m"
  "num_clks (set_refcount r m) = num_clks m" "clk (set_refcount r m) = clk m"
  "client_list (set_refcount r m) = client_list m" "powerdown (set_refcount r m) = powerdown m"
  "parent (set_refcount r m) = parent m"
  by (simp_all add: set_refcount_def)

lemma sel_set_powered [simp]:
  "self (set_powered b m) = self m" "desc (set_powered b m) = desc m"
  "refcount (set_powered b m) = refcount m" "powered (set_powered b m) = b"
  "num_clks (set_powered b m) = num_clks m" "clk (set_powered b m) = clk m"
  "client_list (set_powered b m) = client_list m" "powerdown (set_powered b m) = powerdown m"
  "parent (set_powered b m) = parent m"
  by (simp_all add: set_powered_def)

lemma sel_set_client_list [simp]:
  "self (set_client_list cs m) = self m" "desc (set_client_list cs m) = desc m"
  "refcount (set_client_list cs m) = refcount m" "powered (set_client_list cs m) = powered m"
  "num_clks (set_client_list cs m) = num_clks m" "clk (set_client_list cs m) = clk m"
  "client_list (set_client_list cs m) = cs" "powerdown (set_client_list cs m) = powerdown m"
  "parent (set_client_list cs m) = parent m"
  by (simp_all add: set_client_list_def)

lemma sel_set_powerdown [simp]:
  "self (set_powerdown b m) = self m" "desc (set_powerdown b m) = desc m"
  "refcount (set_powerdown b m) = refcount m" "powered (set_powerdown b m) = powered m"
  "num_clks (set_powerdown b m) = num_clks m" "clk (set_powerdown b m) = clk m"
  "client_list (set_powerdown b m) = client_list m" "powerdown (set_powerdown b m) = b"
  "parent (set_powerdown b m) = parent m"
  by (simp_all add: set_powerdown_def)

lemma sel_set_parent [simp]:
  "self (set_parent p m) = self m" "desc (set_parent p m) = desc m"
  "refcount (set_parent p m) = refcount m" "powered (set_parent p m) = powered m"
  "num_clks (set_parent p m) = num_clks m" "clk (set_parent p m) = clk m"
  "client_list (set_parent p m) = client_list m" "powerdown (set_parent p m) = powerdown m"
  "parent (set_parent p m) = p"
  by (simp_all add: set_parent_def)

lemma set_powerdown_same [simp]: "powerdown m = b \<Longrightarrow> set_powerdown b m = m"
  by (cases m) (simp add: set_powerdown_def)

subsection \<open>Reference counting\<close>

text \<open>
  C1, as the code has it.  \<open>idle(n)\<close> fails fatally exactly when the count reaches zero
  while \<open>powered\<close> is false, and \<open>BUG_ON\<close> is its only fatal exit.  When the count
  reaches zero on a powered module the power-down is scheduled with the configured
  delay; in every other case the call only stores the count and releases the lock, so a
  power-down is scheduled only on a powered module whose count is 0.  A subtraction
  that takes the count below zero is not detected: the negative count is stored,
  nothing is scheduled, and the call returns.
\<close>

theorem idle_mult_fatal_iff:
  "(nvhost_module_idle_mult e m refs tr = Inl BUG \<longleftrightarrow> refcount m - refs = 0 \<and> \<not> powered m) \<and>
   (\<forall>f. nvhost_module_idle_mult e m refs tr = Inl f \<longrightarrow> f = BUG) \<and>
   (refcount m - refs = 0 \<and> powered m \<longrightarrow>
      nvhost_module_idle_mult e m refs tr =
        Inr (set_powerdown True (set_refcount 0 m),
             tr @ [Mutex_lock (self m),
                   Schedule_delayed_work (self m) (powerdown_delay (desc m)),
                   Mutex_unlock (self m), Wake_up (self m)]
                @ (if idle (desc m) then [Desc_idle (self m)] else []))) \<and>
   (refcount m - refs \<noteq> 0 \<longrightarrow>
      nvhost_module_idle_mult e m refs tr =
        Inr (set_refcount (refcount m - refs) m,
             tr @ [Mutex_lock (self m), Mutex_unlock (self m)])) \<and>
   (sint (refcount m) < sint refs \<longrightarrow>
      nvhost_module_idle_mult e m refs tr =
        Inr (set_refcount (refcount m - refs) m,
             tr @ [Mutex_lock (self m), Mutex_unlock (self m)])) \<and>
   (\<forall>m' tr' s d. nvhost_module_idle_mult e m refs tr = Inr (m', tr') \<and>
        Schedule_delayed_work s d \<in> set (drop (length tr) tr') \<longrightarrow>
      powered m \<and> powered m' \<and> refcount m' = 0)"
  by (auto simp: nvhost_module_idle_mult_def Let_def split: if_splits)

theorem idle_mult_fatal_iff_witness:
  "nvhost_module_idle_mult env0 host0 0 [] = Inl BUG \<and>
   sint (refcount host0) < sint (1 :: 32 word) \<and>
   nvhost_module_idle_mult env0 host0 1 [] =
     Inr (set_refcount (- 1) host0, [Mutex_lock 1, Mutex_unlock 1]) \<and>
   powered host1 \<and>
   nvhost_module_idle_mult env0 host1 1 [] =
     Inr (Nvhost_module 1 desc0 0 True 2 [Clk 10, Clk 11, Clk_null] [] True None,
          [Mutex_lock 1, Schedule_delayed_work 1 50, Mutex_unlock 1, Wake_up 1]) \<and>
   nvhost_module_idle_mult env0 host1 3 [] =
     Inr (set_refcount (- 2) host1, [Mutex_lock 1, Mutex_unlock 1])"
  using idle_mult_fatal_iff [of env0 host0 0 "[]"] idle_mult_fatal_iff [of env0 host0 1 "[]"]
    idle_mult_fatal_iff [of env0 host1 1 "[]"] idle_mult_fatal_iff [of env0 host1 3 "[]"]
  by (simp add: host0_def host1_def desc0_def set_powerdown_def set_refcount_def)

text \<open>
  C1, as the specification has it, fails: on a module whose count is 0, \<open>idle(1)\<close>
  would make the count negative, yet the call returns normally and leaves the count at
  \<open>-1\<close>.
\<close>

theorem idle_mult_underflow_counterexample:
  "sint (refcount host0) - sint (1 :: 32 word) < 0 \<and>
   nvhost_module_idle_mult env0 host0 1 [] =
     Inr (set_refcount (- 1) host0, [Mutex_lock 1, Mutex_unlock 1]) \<and>
   sint (refcount (set_refcount (- 1) host0)) = - 1"
  by (simp add: nvhost_module_idle_mult_def host0_def Let_def)

subsection \<open>Deferred power-down\<close>

text \<open>
  C7.  When the deferred power-down callback runs with a count other than 0, or with
  \<open>powered\<close> already false, it takes and releases the lock and does nothing else: no
  hook, no clock, no power domain and no parent is touched, and the module is unchanged.
\<close>

theorem powerdown_handler_noop:
  "refcount m \<noteq> 0 \<or> \<not> powered m \<Longrightarrow>
     powerdown_handler e m tr = Inr (m, tr @ [Mutex_lock (self m), Mutex_unlock (self m)])"
  by (auto simp: powerdown_handler_def Let_def)

theorem powerdown_handler_noop_witness:
  "\<not> powered chan0 \<and>
   powerdown_handler env0 chan0 [] = Inr (chan0, [Mutex_lock 2, Mutex_unlock 2])"
  using powerdown_handler_noop [of chan0 env0 "[]"]
  by (simp add: chan0_def)

subsection \<open>Power-up\<close>

lemma busy_no_power_up:
  "\<not> (refcount m = 0 \<and> \<not> powered m) \<Longrightarrow>
     nvhost_module_busy e m tr =
       (set_refcount (refcount m + 1) (set_powerdown False m),
        tr @ [Mutex_lock (self m), Cancel_delayed_work (self m)]
           @ (if busy (desc m) then [Desc_busy (self m)] else [])
           @ [Mutex_unlock (self m)])"
  by (cases m) (auto simp: Let_def set_refcount_def set_powerdown_def)

lemma busy_power_up:
  "refcount m = 0 \<and> \<not> powered m \<Longrightarrow>
     nvhost_module_busy e m tr =
       (let tr2 = tr @ [Mutex_lock (self m), Cancel_delayed_work (self m)]
                     @ (if busy (desc m) then [Desc_busy (self m)] else []);
            (par', tr3) = (case parent m of None \<Rightarrow> (None, tr2)
                           | Some p \<Rightarrow> (let (p', t) = nvhost_module_busy e p tr2
                                        in (Some p', t)))
        in (set_powered True (set_refcount 1 (set_powerdown False (set_parent par' m))),
            clock_enable m (unpowergate m tr3)
              @ (if finalize_poweron (desc m) then [Desc_finalize_poweron (self m)] else [])
              @ [Mutex_unlock (self m)]))"
  by (cases m)
     (auto simp: Let_def set_refcount_def set_powerdown_def set_powered_def set_parent_def
        clock_enable_def unpowergate_def split: prod.splits option.splits)

lemma busy_powered: "powered m \<Longrightarrow> powered (fst (nvhost_module_busy e m tr))"
  by (simp add: busy_no_power_up)

lemma busy_powered_after:
  "refcount m = 0 \<Longrightarrow> powered (fst (nvhost_module_busy e m tr))"
  by (cases "powered m") (simp_all add: busy_no_power_up busy_power_up Let_def split: prod.splits)

lemma idle_mult_powered:
  "nvhost_module_idle_mult e m n tr = Inr (m', tr') \<Longrightarrow> powered m' = powered m"
  by (auto simp: nvhost_module_idle_mult_def Let_def split: if_splits)

lemma power_ups_powered: "powered m \<Longrightarrow> power_ups e cs m tr = 0"
proof (induction cs arbitrary: m tr)
  case Nil
  then show ?case by simp
next
  case (Cons c cs)
  show ?case
  proof (cases c)
    case Busy
    have "powered (fst (nvhost_module_busy e m tr))" using Cons.prems by (rule busy_powered)
    then show ?thesis using Busy Cons.prems Cons.IH by (simp add: case_prod_beta)
  next
    case (Idle n)
    then show ?thesis using Cons.prems Cons.IH
      by (auto split: sum.splits dest: idle_mult_powered)
  qed
qed

lemma power_ups_le_1: "power_ups e cs m tr \<le> 1"
proof (induction cs arbitrary: m tr)
  case Nil
  then show ?case by simp
next
  case (Cons c cs)
  show ?case
  proof (cases c)
    case Busy
    show ?thesis
    proof (cases "refcount m = 0 \<and> \<not> powered m")
      case True
      then have "powered (fst (nvhost_module_busy e m tr))" by (simp add: busy_powered_after)
      then have "power_ups e cs (fst (nvhost_module_busy e m tr)) (snd (nvhost_module_busy e m tr)) = 0"
        by (rule power_ups_powered)
      then show ?thesis using Busy True by (simp add: case_prod_beta)
    next
      case False
      then show ?thesis using Busy Cons.IH by (auto simp: case_prod_beta)
    qed
  next
    case (Idle n)
    then show ?thesis using Cons.IH by (auto split: sum.splits)
  qed
qed

text \<open>
  C3.  \<open>busy()\<close> runs the power-up sequence (parent busy, un-gate, enable clocks,
  finalize-power-on hook, \<open>powered\<close> set) exactly when it finds the count at 0 and
  \<open>powered\<close> false; in every other state, in particular whenever the module is
  powered, it only takes the lock, cancels the delayed work, calls the busy hook, counts
  and releases the lock.  In any run of \<open>busy()\<close> and \<open>idle(n)\<close> calls at most one
  call powers the module up, and none does when the run starts powered.
\<close>

theorem busy_power_up_once:
  "(refcount m = 0 \<and> \<not> powered m \<longrightarrow>
      nvhost_module_busy e m tr =
        (let tr2 = tr @ [Mutex_lock (self m), Cancel_delayed_work (self m)]
                      @ (if busy (desc m) then [Desc_busy (self m)] else []);
             (par', tr3) = (case parent m of None \<Rightarrow> (None, tr2)
                            | Some p \<Rightarrow> (let (p', t) = nvhost_module_busy e p tr2
                                         in (Some p', t)))
         in (set_powered True (set_refcount 1 (set_powerdown False (set_parent par' m))),
             clock_enable m (unpowergate m tr3)
               @ (if finalize_poweron (desc m) then [Desc_finalize_poweron (self m)] else [])
               @ [Mutex_unlock (self m)]))) \<and>
   (\<not> (refcount m = 0 \<and> \<not> powered m) \<longrightarrow>
      nvhost_module_busy e m tr =
        (set_refcount (refcount m + 1) (set_powerdown False m),
         tr @ [Mutex_lock (self m), Cancel_delayed_work (self m)]
            @ (if busy (desc m) then [Desc_busy (self m)] else [])
            @ [Mutex_unlock (self m)])) \<and>
   power_ups e cs m tr \<le> 1 \<and>
   (powered m \<longrightarrow> power_ups e cs m tr = 0)"
  using busy_power_up [of m e tr] busy_no_power_up [of m e tr] power_ups_le_1 [of e cs m tr]
    power_ups_powered [of m e cs tr]
  by blast

theorem busy_power_up_once_witness:
  "refcount chan0 = 0 \<and> \<not> powered chan0 \<and>
   nvhost_module_busy env0 chan0 [] =
     (chan1,
      [Mutex_lock 2, Cancel_delayed_work 2,
       Mutex_lock 1, Cancel_delayed_work 1, Tegra_unpowergate_partition 3,
       Clk_enable (Clk 10), Clk_enable (Clk 11), Desc_finalize_poweron 1, Mutex_unlock 1,
       Tegra_unpowergate_partition 3, Clk_enable (Clk 20), Clk_enable (Clk 21),
       Desc_finalize_poweron 2, Mutex_unlock 2]) \<and>
   powered chan1 \<and>
   nvhost_module_busy env0 chan1 [] =
     (set_refcount 2 chan1, [Mutex_lock 2, Cancel_delayed_work 2, Mutex_unlock 2]) \<and>
   power_ups env0 [Busy, Busy, Idle 1, Busy] chan0 [] \<le> 1 \<and>
   power_ups env0 [Busy, Idle 1, Busy] chan1 [] = 0"
  using busy_power_up_once [of chan0 env0 "[]" "[Busy, Busy, Idle 1, Busy]"]
        busy_power_up_once [of chan1 env0 "[]" "[Busy, Idle 1, Busy]"]
  by (simp add: chan0_def chan1_def host0_def host1_def desc0_def Let_def
        clock_enable_def unpowergate_def set_refcount_def set_powerdown_def set_powered_def
        set_parent_def)

subsection \<open>Retry of a refused power-down\<close>

lemma set_powerdown_twice [simp]: "set_powerdown a (set_powerdown b m) = set_powerdown a m"
  by (simp add: set_powerdown_def)

lemma clock_disable_set_powerdown [simp]:
  "clock_disable (set_powerdown b m) tr = clock_disable m tr"
  by (simp add: clock_disable_def)

lemma powergate_set_powerdown [simp]: "powergate (set_powerdown b m) tr = powergate m tr"
  by (simp add: powergate_def)

lemma delayed_work_run_refused:
  assumes "refcount m = 0" "powered m" "powerdown m" "prepare_poweroff (desc m)"
    and "prepare_poweroff_ret e (tr @ [Mutex_lock (self m)]) (self m) \<noteq> 0"
  shows "delayed_work_run e m tr = Inr (m, tr @ retry_events m)"
  using assms
  by (simp add: delayed_work_run_def powerdown_handler_def retry_events_def Let_def)

lemma delayed_work_run_accepted:
  assumes "refcount m = 0" "powered m" "powerdown m" "prepare_poweroff (desc m)"
    and "prepare_poweroff_ret e (tr @ [Mutex_lock (self m)]) (self m) = 0"
  shows "delayed_work_run e m tr =
     (let T = powergate m (clock_disable m
                (tr @ [Mutex_lock (self m), Desc_prepare_poweroff (self m)]));
          m1 = set_powered False (set_powerdown False m)
      in case parent m of
           None \<Rightarrow> Inr (m1, T @ [Mutex_unlock (self m)])
         | Some p \<Rightarrow>
             (case nvhost_module_idle e p T of
                Inl f \<Rightarrow> Inl f
              | Inr (p', tr5) \<Rightarrow> Inr (set_parent (Some p') m1, tr5 @ [Mutex_unlock (self m)])))"
  using assms
  by (simp add: delayed_work_run_def powerdown_handler_def Let_def
        split: option.splits sum.splits prod.splits)

lemma delayed_work_runs_Suc:
  "delayed_work_runs e (Suc n) m tr =
     (case delayed_work_runs e n m tr of
        Inl f \<Rightarrow> Inl f
      | Inr (m', tr') \<Rightarrow> delayed_work_run e m' tr')"
proof (induction n arbitrary: m tr)
  case 0
  then show ?case by (simp split: sum.splits)
next
  case (Suc n)
  show ?case
  proof (cases "delayed_work_run e m tr")
    case (Inl f)
    then show ?thesis by simp
  next
    case (Inr p)
    obtain m' tr' where p: "p = (m', tr')" by (cases p)
    have "delayed_work_runs e (Suc (Suc n)) m tr = delayed_work_runs e (Suc n) m' tr'"
      using Inr p by simp
    also have "\<dots> = (case delayed_work_runs e n m' tr' of
        Inl f \<Rightarrow> Inl f
      | Inr (m'', tr'') \<Rightarrow> delayed_work_run e m'' tr'')"
      by (rule Suc.IH)
    also have "delayed_work_runs e n m' tr' = delayed_work_runs e (Suc n) m tr"
      using Inr p by simp
    finally show ?thesis .
  qed
qed

lemma concat_replicate_snoc: "concat (replicate n xs) @ xs = concat (replicate (Suc n) xs)"
  by (induction n) simp_all

lemma delayed_work_runs_refused:
  assumes "refcount m = 0" "powered m" "powerdown m" "prepare_poweroff (desc m)"
    and "\<forall>j<k. prepare_poweroff_ret e
            (tr @ concat (replicate j (retry_events m)) @ [Mutex_lock (self m)]) (self m) \<noteq> 0"
  shows "n \<le> k \<Longrightarrow>
     delayed_work_runs e n m tr = Inr (m, tr @ concat (replicate n (retry_events m)))"
proof (induction n)
  case 0
  then show ?case by simp
next
  case (Suc n)
  then have runs: "delayed_work_runs e n m tr = Inr (m, tr @ concat (replicate n (retry_events m)))"
    by simp
  from Suc.prems assms(5)
  have "prepare_poweroff_ret e
          ((tr @ concat (replicate n (retry_events m))) @ [Mutex_lock (self m)]) (self m) \<noteq> 0"
    by simp
  with assms(1-4)
  have "delayed_work_run e m (tr @ concat (replicate n (retry_events m))) =
          Inr (m, (tr @ concat (replicate n (retry_events m))) @ retry_events m)"
    by (rule delayed_work_run_refused)
  then show ?case
    by (simp only: delayed_work_runs_Suc runs sum.case prod.case)
       (simp only: append_assoc concat_replicate_snoc)
qed

lemma delayed_work_runs_retry:
  assumes "refcount m = 0" "powered m" "powerdown m" "prepare_poweroff (desc m)"
    and "\<forall>j<k. prepare_poweroff_ret e
            (tr @ concat (replicate j (retry_events m)) @ [Mutex_lock (self m)]) (self m) \<noteq> 0"
  shows "(\<forall>n\<le>k. delayed_work_runs e n m tr =
            Inr (m, tr @ concat (replicate n (retry_events m)))) \<and>
         (prepare_poweroff_ret e
            (tr @ concat (replicate k (retry_events m)) @ [Mutex_lock (self m)]) (self m) = 0 \<longrightarrow>
          delayed_work_runs e (Suc k) m tr =
            (let T = powergate m (clock_disable m
                       (tr @ concat (replicate k (retry_events m))
                           @ [Mutex_lock (self m), Desc_prepare_poweroff (self m)]));
                 m1 = set_powered False (set_powerdown False m)
             in case parent m of
                  None \<Rightarrow> Inr (m1, T @ [Mutex_unlock (self m)])
                | Some p \<Rightarrow>
                    (case nvhost_module_idle e p T of
                       Inl f \<Rightarrow> Inl f
                     | Inr (p', tr5) \<Rightarrow>
                         Inr (set_parent (Some p') m1, tr5 @ [Mutex_unlock (self m)]))))"
proof (intro conjI allI impI)
  fix n assume "n \<le> k"
  with assms show "delayed_work_runs e n m tr = Inr (m, tr @ concat (replicate n (retry_events m)))"
    by (rule delayed_work_runs_refused)
next
  assume acc: "prepare_poweroff_ret e
     (tr @ concat (replicate k (retry_events m)) @ [Mutex_lock (self m)]) (self m) = 0"
  have runs: "delayed_work_runs e k m tr = Inr (m, tr @ concat (replicate k (retry_events m)))"
    using assms by (rule delayed_work_runs_refused) simp
  from acc have "prepare_poweroff_ret e
     ((tr @ concat (replicate k (retry_events m))) @ [Mutex_lock (self m)]) (self m) = 0"
    by simp
  with assms(1-4) have "delayed_work_run e m (tr @ concat (replicate k (retry_events m))) =
     (let T = powergate m (clock_disable m
                ((tr @ concat (replicate k (retry_events m)))
                   @ [Mutex_lock (self m), Desc_prepare_poweroff (self m)]));
          m1 = set_powered False (set_powerdown False m)
      in case parent m of
           None \<Rightarrow> Inr (m1, T @ [Mutex_unlock (self m)])
         | Some p \<Rightarrow>
             (case nvhost_module_idle e p T of
                Inl f \<Rightarrow> Inl f
              | Inr (p', tr5) \<Rightarrow> Inr (set_parent (Some p') m1, tr5 @ [Mutex_unlock (self m)])))"
    by (rule delayed_work_run_accepted)
  then show "delayed_work_runs e (Suc k) m tr =
     (let T = powergate m (clock_disable m
                (tr @ concat (replicate k (retry_events m))
                    @ [Mutex_lock (self m), Desc_prepare_poweroff (self m)]));
          m1 = set_powered False (set_powerdown False m)
      in case parent m of
           None \<Rightarrow> Inr (m1, T @ [Mutex_unlock (self m)])
         | Some p \<Rightarrow>
             (case nvhost_module_idle e p T of
                Inl f \<Rightarrow> Inl f
              | Inr (p', tr5) \<Rightarrow> Inr (set_parent (Some p') m1, tr5 @ [Mutex_unlock (self m)])))"
    by (simp only: delayed_work_runs_Suc runs sum.case prod.case append_assoc)
qed

text \<open>
  C6.  With the count at 0 and the module powered: when the prepare-power-off hook
  answers still-busy, the callback releases the lock, re-arms the delayed work with the
  configured delay and returns; no clock is disabled, no domain is gated and \<open>powered\<close>
  stays true.  With the delayed work pending, as long as the hook refuses, each run
  leaves the module as it was and adds exactly one such attempt to the trace, so \<open>k\<close>
  refusals make \<open>k\<close> reschedules; when the hook then accepts, the next run disables the
  clocks, gates the domains, clears \<open>powered\<close> and idles the parent.
\<close>

theorem powerdown_retry:
  assumes "refcount m = 0" "powered m" "prepare_poweroff (desc m)"
  shows "(prepare_poweroff_ret e (tr @ [Mutex_lock (self m)]) (self m) \<noteq> 0 \<longrightarrow>
            powerdown_handler e m tr =
              Inr (set_powerdown True m,
                   tr @ [Mutex_lock (self m), Desc_prepare_poweroff (self m),
                         Mutex_unlock (self m),
                         Schedule_delayed_work (self m) (powerdown_delay (desc m))])) \<and>
         (powerdown m \<and>
          (\<forall>j<k. prepare_poweroff_ret e
             (tr @ concat (replicate j (retry_events m)) @ [Mutex_lock (self m)]) (self m) \<noteq> 0) \<longrightarrow>
            (\<forall>n\<le>k. delayed_work_runs e n m tr =
               Inr (m, tr @ concat (replicate n (retry_events m)))) \<and>
            (prepare_poweroff_ret e
               (tr @ concat (replicate k (retry_events m)) @ [Mutex_lock (self m)]) (self m) = 0 \<longrightarrow>
             delayed_work_runs e (Suc k) m tr =
               (let T = powergate m (clock_disable m
                          (tr @ concat (replicate k (retry_events m))
                              @ [Mutex_lock (self m), Desc_prepare_poweroff (self m)]));
                    m1 = set_powered False (set_powerdown False m)
                in case parent m of
                     None \<Rightarrow> Inr (m1, T @ [Mutex_unlock (self m)])
                   | Some p \<Rightarrow>
                       (case nvhost_module_idle e p T of
                          Inl f \<Rightarrow> Inl f
                        | Inr (p', tr5) \<Rightarrow>
                            Inr (set_parent (Some p') m1, tr5 @ [Mutex_unlock (self m)])))))"
proof (rule conjI)
  show "prepare_poweroff_ret e (tr @ [Mutex_lock (self m)]) (self m) \<noteq> 0 \<longrightarrow>
      powerdown_handler e m tr =
        Inr (set_powerdown True m,
             tr @ [Mutex_lock (self m), Desc_prepare_poweroff (self m), Mutex_unlock (self m),
                   Schedule_delayed_work (self m) (powerdown_delay (desc m))])"
    using assms by (simp add: powerdown_handler_def Let_def)
next
  show "powerdown m \<and>
      (\<forall>j<k. prepare_poweroff_ret e
         (tr @ concat (replicate j (retry_events m)) @ [Mutex_lock (self m)]) (self m) \<noteq> 0) \<longrightarrow>
        (\<forall>n\<le>k. delayed_work_runs e n m tr =
           Inr (m, tr @ concat (replicate n (retry_events m)))) \<and>
        (prepare_poweroff_ret e
           (tr @ concat (replicate k (retry_events m)) @ [Mutex_lock (self m)]) (self m) = 0 \<longrightarrow>
         delayed_work_runs e (Suc k) m tr =
           (let T = powergate m (clock_disable m
                      (tr @ concat (replicate k (retry_events m))
                          @ [Mutex_lock (self m), Desc_prepare_poweroff (self m)]));
                m1 = set_powered False (set_powerdown False m)
            in case parent m of
                 None \<Rightarrow> Inr (m1, T @ [Mutex_unlock (self m)])
               | Some p \<Rightarrow>
                   (case nvhost_module_idle e p T of
                      Inl f \<Rightarrow> Inl f
                    | Inr (p', tr5) \<Rightarrow>
                        Inr (set_parent (Some p') m1, tr5 @ [Mutex_unlock (self m)]))))"
  proof
    assume h: "powerdown m \<and>
      (\<forall>j<k. prepare_poweroff_ret e
         (tr @ concat (replicate j (retry_events m)) @ [Mutex_lock (self m)]) (self m) \<noteq> 0)"
    from delayed_work_runs_retry [OF assms(1,2) conjunct1 [OF h] assms(3) conjunct2 [OF h]]
    show "(\<forall>n\<le>k. delayed_work_runs e n m tr =
           Inr (m, tr @ concat (replicate n (retry_events m)))) \<and>
        (prepare_poweroff_ret e
           (tr @ concat (replicate k (retry_events m)) @ [Mutex_lock (self m)]) (self m) = 0 \<longrightarrow>
         delayed_work_runs e (Suc k) m tr =
           (let T = powergate m (clock_disable m
                      (tr @ concat (replicate k (retry_events m))
                          @ [Mutex_lock (self m), Desc_prepare_poweroff (self m)]));
                m1 = set_powered False (set_powerdown False m)
            in case parent m of
                 None \<Rightarrow> Inr (m1, T @ [Mutex_unlock (self m)])
               | Some p \<Rightarrow>
                   (case nvhost_module_idle e p T of
                      Inl f \<Rightarrow> Inl f
                    | Inr (p', tr5) \<Rightarrow>
                        Inr (set_parent (Some p') m1, tr5 @ [Mutex_unlock (self m)]))))" .
  qed
qed

theorem powerdown_retry_witness:
  "powered chan2 \<and>
   powerdown_handler env0 chan2 [] =
     Inr (chan2,
          [Mutex_lock 2, Desc_prepare_poweroff 2, Mutex_unlock 2, Schedule_delayed_work 2 50]) \<and>
   delayed_work_runs env0 2 chan2 [] =
     Inr (chan2,
          [Mutex_lock 2, Desc_prepare_poweroff 2, Mutex_unlock 2, Schedule_delayed_work 2 50,
           Mutex_lock 2, Desc_prepare_poweroff 2, Mutex_unlock 2, Schedule_delayed_work 2 50]) \<and>
   delayed_work_runs env0 (Suc 2) chan2 [] =
     Inr (Nvhost_module 2 desc0 0 False 2 [Clk 20, Clk 21, Clk_null] [] False
            (Some (Nvhost_module 1 desc0 0 True 2 [Clk 10, Clk 11, Clk_null] [] True None)),
          [Mutex_lock 2, Desc_prepare_poweroff 2, Mutex_unlock 2, Schedule_delayed_work 2 50,
           Mutex_lock 2, Desc_prepare_poweroff 2, Mutex_unlock 2, Schedule_delayed_work 2 50,
           Mutex_lock 2, Desc_prepare_poweroff 2, Clk_disable (Clk 20), Clk_disable (Clk 21),
           Tegra_powergate_partition 3,
           Mutex_lock 1, Schedule_delayed_work 1 50, Mutex_unlock 1, Wake_up 1,
           Mutex_unlock 2])"
proof -
  have h1: "refcount chan2 = 0" and h2: "powered chan2"
    and h4: "prepare_poweroff (desc chan2)"
    by (simp_all add: chan2_def desc0_def)
  have h5: "powerdown chan2 \<and> (\<forall>j<2. prepare_poweroff_ret env0
      ([] @ concat (replicate j (retry_events chan2)) @ [Mutex_lock (self chan2)]) (self chan2) \<noteq> 0)"
    by (simp add: less_Suc_eq numeral_2_eq_2 env0_def retry_events_def chan2_def)
  have h6: "prepare_poweroff_ret env0 ([] @ [Mutex_lock (self chan2)]) (self chan2) \<noteq> 0"
    by (simp add: env0_def)
  note t = powerdown_retry [of chan2 env0 "[]" 2, OF h1 h2 h4]
  note r = t [THEN conjunct2, rule_format, OF h5]
  have acc: "prepare_poweroff_ret env0
      ([] @ concat (replicate 2 (retry_events chan2)) @ [Mutex_lock (self chan2)]) (self chan2) = 0"
    by (simp add: numeral_2_eq_2 env0_def retry_events_def chan2_def)
  from t [THEN conjunct1, rule_format, OF h6]
       r [THEN conjunct1, rule_format, of 2] r [THEN conjunct2, rule_format, OF acc] h2
  show ?thesis
    by (simp add: numeral_2_eq_2 retry_events_def chan2_def host1_def desc0_def Let_def
          clock_disable_def powergate_def nvhost_module_idle_def nvhost_module_idle_mult_def
          set_powered_def set_powerdown_def set_parent_def set_refcount_def)
qed

subsection \<open>Suspend\<close>

text \<open>
  C8.  Suspending a module whose count is 0 and which is not powered only tests the
  count (under the lock), lets a still pending delayed work run as a no-op, and calls the
  suspend hook if there is one: the prepare-power-off hook is not called, no clock is
  disabled, no domain is gated, and the still-powered assertion does not fire.
\<close>

theorem suspend_when_off:
  "refcount m = 0 \<Longrightarrow> \<not> powered m \<Longrightarrow>
     nvhost_module_suspend e m system_suspend tr =
       Inr (set_powerdown False m,
            tr @ (if system_suspend then [Mutex_lock (self m), Mutex_unlock (self m)] else [])
               @ [Mutex_lock (self m), Mutex_unlock (self m)]
               @ (if powerdown m then [Mutex_lock (self m), Mutex_unlock (self m)] else [])
               @ (if suspend (desc m) then [Desc_suspend (self m)] else []))"
  by (simp add: nvhost_module_suspend_def is_module_idle_def delayed_work_run_def
        powerdown_handler_def Let_def)

theorem suspend_when_off_witness:
  "refcount host0 = 0 \<and> \<not> powered host0 \<and>
   nvhost_module_suspend env0 host0 True [] =
     Inr (host0, [Mutex_lock 1, Mutex_unlock 1, Mutex_lock 1, Mutex_unlock 1])"
  using suspend_when_off [of host0 env0 True "[]"]
  by (simp add: host0_def desc0_def)

subsection \<open>Reading a clock rate\<close>

lemma idle_returns:
  "(refcount m - 1 = 0 \<Longrightarrow> powered m) \<Longrightarrow>
     \<exists>m2 tr2. nvhost_module_idle e m tr = Inr (m2, tr2) \<and> refcount m2 = refcount m - 1"
  by (auto simp: nvhost_module_idle_def nvhost_module_idle_mult_def Let_def)

text \<open>
  C9, as the code has it.  \<open>get_rate(index)\<close> on a clock index without a backing clock
  returns \<open>-EINVAL\<close>, stores no rate and leaves the module and the trace as they were.
  Otherwise it calls \<open>busy()\<close>, which raises the count by one, reads the rate, calls
  \<open>idle()\<close>, which does not fail, and returns 0 with the rate read and the count back
  at its value before the call.  The module is powered at the read exactly when the call
  finds the count at 0 or the module powered: from count 0 and unpowered \<open>busy()\<close> ends
  with the domains un-gated and the clocks enabled, while a call that finds another
  count on an unpowered module reads the clock with nothing enabled.
\<close>

theorem get_rate_busy_idle:
  "(in_bounds (clk m) index \<and> IS_ERR_OR_NULL (clk m ! nat index) \<longrightarrow>
      nvhost_module_get_rate e m index tr = Inr (- EINVAL, None, m, tr)) \<and>
   (in_bounds (clk m) index \<and> \<not> IS_ERR_OR_NULL (clk m ! nat index) \<longrightarrow>
      (let (m1, tr1) = nvhost_module_busy e m tr
       in refcount m1 = refcount m + 1 \<and>
          (powered m1 \<longleftrightarrow> refcount m = 0 \<or> powered m) \<and>
          (\<exists>m2 tr2.
             nvhost_module_idle e m1 (tr1 @ [Clk_get_rate (clk m ! nat index)]) = Inr (m2, tr2) \<and>
             nvhost_module_get_rate e m index tr =
               Inr (0, Some (clk_get_rate e tr1 (clk m ! nat index)), m2, tr2) \<and>
             refcount m2 = refcount m) \<and>
          (refcount m = 0 \<and> \<not> powered m \<longrightarrow>
             (\<exists>pre. tr1 =
                pre @ (if can_powergate (desc m) then
                         (if fst (powergate_ids (desc m)) \<noteq> -1
                          then [Tegra_unpowergate_partition (fst (powergate_ids (desc m)))]
                          else [])
                         @ (if snd (powergate_ids (desc m)) \<noteq> -1
                            then [Tegra_unpowergate_partition (snd (powergate_ids (desc m)))]
                            else [])
                       else [])
                    @ map Clk_enable (take (num_clks m) (clk m))
                    @ (if finalize_poweron (desc m) then [Desc_finalize_poweron (self m)] else [])
                    @ [Mutex_unlock (self m)])) \<and>
          (refcount m \<noteq> 0 \<and> \<not> powered m \<longrightarrow>
             tr1 = tr @ [Mutex_lock (self m), Cancel_delayed_work (self m)]
                      @ (if busy (desc m) then [Desc_busy (self m)] else [])
                      @ [Mutex_unlock (self m)])))"
proof (intro conjI impI)
  assume "in_bounds (clk m) index \<and> IS_ERR_OR_NULL (clk m ! nat index)"
  then show "nvhost_module_get_rate e m index tr = Inr (- EINVAL, None, m, tr)"
    by (simp add: nvhost_module_get_rate_def Let_def)
next
  assume ok: "in_bounds (clk m) index \<and> \<not> IS_ERR_OR_NULL (clk m ! nat index)"
  obtain m1 tr1 where b: "nvhost_module_busy e m tr = (m1, tr1)"
    by (cases "nvhost_module_busy e m tr")
  have r1: "refcount m1 = refcount m + 1"
    using b by (cases "refcount m = 0 \<and> \<not> powered m")
      (auto simp: busy_power_up busy_no_power_up Let_def split: prod.splits)
  have p1: "refcount m = 0 \<or> powered m \<Longrightarrow> powered m1"
    using b busy_powered_after [of m e tr] busy_powered [of m e tr] by auto
  have p2: "powered m1 \<Longrightarrow> refcount m = 0 \<or> powered m"
    using b by (cases "refcount m = 0 \<and> \<not> powered m") (auto simp: busy_no_power_up)
  have nz: "refcount m1 - 1 = 0 \<Longrightarrow> powered m1"
    using r1 p1 by simp
  from idle_returns [of m1 e "tr1 @ [Clk_get_rate (clk m ! nat index)]"] nz
  obtain m2 tr2 where i:
    "nvhost_module_idle e m1 (tr1 @ [Clk_get_rate (clk m ! nat index)]) = Inr (m2, tr2)"
    and r2: "refcount m2 = refcount m1 - 1"
    by blast
  have g: "nvhost_module_get_rate e m index tr =
          Inr (0, Some (clk_get_rate e tr1 (clk m ! nat index)), m2, tr2)"
    using ok b i by (simp add: nvhost_module_get_rate_def Let_def)
  let ?tr2 = "tr @ [Mutex_lock (self m), Cancel_delayed_work (self m)]
                 @ (if busy (desc m) then [Desc_busy (self m)] else [])"
  let ?tr3 = "snd (case parent m of None \<Rightarrow> (None, ?tr2)
                   | Some p \<Rightarrow> (let (p', t) = nvhost_module_busy e p ?tr2 in (Some p', t)))"
  let ?U = "(if can_powergate (desc m) then
               (if fst (powergate_ids (desc m)) \<noteq> -1
                then [Tegra_unpowergate_partition (fst (powergate_ids (desc m)))]
                else [])
               @ (if snd (powergate_ids (desc m)) \<noteq> -1
                  then [Tegra_unpowergate_partition (snd (powergate_ids (desc m)))]
                  else [])
             else [])"
  let ?F = "(if finalize_poweron (desc m) then [Desc_finalize_poweron (self m)] else [])"
  have ce: "clock_enable m (unpowergate m t) = t @ ?U @ map Clk_enable (take (num_clks m) (clk m))"
    for t by (simp add: clock_enable_def unpowergate_def)
  have up: "\<exists>pre. tr1 = pre @ ?U @ map Clk_enable (take (num_clks m) (clk m)) @ ?F
                        @ [Mutex_unlock (self m)]"
    if pu: "refcount m = 0 \<and> \<not> powered m"
  proof -
    have "tr1 = snd (nvhost_module_busy e m tr)" using b by simp
    also have "\<dots> = clock_enable m (unpowergate m ?tr3) @ ?F @ [Mutex_unlock (self m)]"
      by (simp only: busy_power_up [OF pu] Let_def case_prod_beta snd_conv)
    also have "\<dots> = ?tr3 @ ?U @ map Clk_enable (take (num_clks m) (clk m)) @ ?F
                        @ [Mutex_unlock (self m)]"
      by (simp only: ce append_assoc)
    finally show ?thesis by (rule exI)
  qed
  have noup: "refcount m \<noteq> 0 \<and> \<not> powered m \<Longrightarrow>
      tr1 = tr @ [Mutex_lock (self m), Cancel_delayed_work (self m)]
               @ (if busy (desc m) then [Desc_busy (self m)] else [])
               @ [Mutex_unlock (self m)]"
    using b by (auto simp: busy_no_power_up)
  have inner: "\<exists>m2 tr2.
      nvhost_module_idle e m1 (tr1 @ [Clk_get_rate (clk m ! nat index)]) = Inr (m2, tr2) \<and>
      nvhost_module_get_rate e m index tr =
        Inr (0, Some (clk_get_rate e tr1 (clk m ! nat index)), m2, tr2) \<and>
      refcount m2 = refcount m"
    using i g r2 r1 by simp
  have pw: "powered m1 \<longleftrightarrow> refcount m = 0 \<or> powered m" using p1 p2 by blast
  show "let (m1, tr1) = nvhost_module_busy e m tr
       in refcount m1 = refcount m + 1 \<and>
          (powered m1 \<longleftrightarrow> refcount m = 0 \<or> powered m) \<and>
          (\<exists>m2 tr2.
             nvhost_module_idle e m1 (tr1 @ [Clk_get_rate (clk m ! nat index)]) = Inr (m2, tr2) \<and>
             nvhost_module_get_rate e m index tr =
               Inr (0, Some (clk_get_rate e tr1 (clk m ! nat index)), m2, tr2) \<and>
             refcount m2 = refcount m) \<and>
          (refcount m = 0 \<and> \<not> powered m \<longrightarrow>
             (\<exists>pre. tr1 =
                pre @ (if can_powergate (desc m) then
                         (if fst (powergate_ids (desc m)) \<noteq> -1
                          then [Tegra_unpowergate_partition (fst (powergate_ids (desc m)))]
                          else [])
                         @ (if snd (powergate_ids (desc m)) \<noteq> -1
                            then [Tegra_unpowergate_partition (snd (powergate_ids (desc m)))]
                            else [])
                       else [])
                    @ map Clk_enable (take (num_clks m) (clk m))
                    @ (if finalize_poweron (desc m) then [Desc_finalize_poweron (self m)] else [])
                    @ [Mutex_unlock (self m)])) \<and>
          (refcount m \<noteq> 0 \<and> \<not> powered m \<longrightarrow>
             tr1 = tr @ [Mutex_lock (self m), Cancel_delayed_work (self m)]
                      @ (if busy (desc m) then [Desc_busy (self m)] else [])
                      @ [Mutex_unlock (self m)])"
    unfolding b Let_def prod.case
  proof (intro conjI impI)
    show "refcount m1 = refcount m + 1" by (rule r1)
    show "powered m1 = (refcount m = 0 \<or> powered m)" by (rule pw)
    show "\<exists>m2 tr2.
      nvhost_module_idle e m1 (tr1 @ [Clk_get_rate (clk m ! nat index)]) = Inr (m2, tr2) \<and>
      nvhost_module_get_rate e m index tr =
        Inr (0, Some (clk_get_rate e tr1 (clk m ! nat index)), m2, tr2) \<and>
      refcount m2 = refcount m" by (rule inner)
  next
    assume "refcount m = 0 \<and> \<not> powered m"
    then show "\<exists>pre. tr1 = pre @ ?U @ map Clk_enable (take (num_clks m) (clk m)) @ ?F
                        @ [Mutex_unlock (self m)]" by (rule up)
  next
    assume "refcount m \<noteq> 0 \<and> \<not> powered m"
    then show "tr1 = tr @ [Mutex_lock (self m), Cancel_delayed_work (self m)]
                      @ (if busy (desc m) then [Desc_busy (self m)] else [])
                      @ [Mutex_unlock (self m)]" by (rule noup)
  qed
qed

theorem get_rate_busy_idle_witness:
  "in_bounds (clk host0) 2 \<and> IS_ERR_OR_NULL (clk host0 ! nat 2) \<and>
   nvhost_module_get_rate env0 host0 2 [] = Inr (- EINVAL, None, host0, []) \<and>
   in_bounds (clk host0) 0 \<and> \<not> IS_ERR_OR_NULL (clk host0 ! nat 0) \<and> refcount host0 = 0 \<and>
   \<not> powered host0 \<and>
   powered (fst (nvhost_module_busy env0 host0 [])) \<and>
   refcount (fst (nvhost_module_busy env0 host0 [])) = 1 \<and>
   nvhost_module_get_rate env0 host0 0 [] =
     Inr (0, Some 100,
          Nvhost_module 1 desc0 0 True 2 [Clk 10, Clk 11, Clk_null] [] True None,
          [Mutex_lock 1, Cancel_delayed_work 1, Tegra_unpowergate_partition 3,
           Clk_enable (Clk 10), Clk_enable (Clk 11), Desc_finalize_poweron 1, Mutex_unlock 1,
           Clk_get_rate (Clk 10),
           Mutex_lock 1, Schedule_delayed_work 1 50, Mutex_unlock 1, Wake_up 1]) \<and>
   \<not> powered (fst (nvhost_module_busy env0 host_neg [])) \<and>
   snd (nvhost_module_busy env0 host_neg []) =
     [Mutex_lock 1, Cancel_delayed_work 1, Mutex_unlock 1]"
proof -
  have a: "in_bounds (clk host0) 2 \<and> IS_ERR_OR_NULL (clk host0 ! nat 2)"
    by (simp add: host0_def in_bounds_def IS_ERR_OR_NULL_def)
  have b: "in_bounds (clk host0) 0 \<and> \<not> IS_ERR_OR_NULL (clk host0 ! nat 0)"
    by (simp add: host0_def in_bounds_def IS_ERR_OR_NULL_def)
  have c: "in_bounds (clk host_neg) 0 \<and> \<not> IS_ERR_OR_NULL (clk host_neg ! nat 0)"
    by (simp add: host_neg_def in_bounds_def IS_ERR_OR_NULL_def)
  have z: "refcount host0 = 0" "\<not> powered host0" by (simp_all add: host0_def)
  have n: "refcount host_neg \<noteq> 0 \<and> \<not> powered host_neg" by (simp add: host_neg_def)
  have g: "clk_get_rate env0 tr c = 100" for tr c by (simp add: env0_def)
  note t1 = get_rate_busy_idle [of host0 2 env0 "[]", THEN conjunct1, rule_format, OF a]
  note t2 = get_rate_busy_idle [of host0 0 env0 "[]", THEN conjunct2, rule_format, OF b]
  note t3 = get_rate_busy_idle [of host_neg 0 env0 "[]", THEN conjunct2, rule_format, OF c]
  have bz: "nvhost_module_busy env0 host0 [] =
      (Nvhost_module 1 desc0 1 True 2 [Clk 10, Clk 11, Clk_null] [] False None,
       [Mutex_lock 1, Cancel_delayed_work 1, Tegra_unpowergate_partition 3,
        Clk_enable (Clk 10), Clk_enable (Clk 11), Desc_finalize_poweron 1, Mutex_unlock 1])"
    by (simp add: host0_def desc0_def Let_def clock_enable_def unpowergate_def set_powered_def)
  have iz: "nvhost_module_idle env0
      (Nvhost_module 1 desc0 1 True 2 [Clk 10, Clk 11, Clk_null] [] False None) tr =
      Inr (Nvhost_module 1 desc0 0 True 2 [Clk 10, Clk 11, Clk_null] [] True None,
           tr @ [Mutex_lock 1, Schedule_delayed_work 1 50, Mutex_unlock 1, Wake_up 1])" for tr
    by (simp add: nvhost_module_idle_def nvhost_module_idle_mult_def desc0_def Let_def
          set_refcount_def set_powerdown_def)
  from t2 bz iz g z
  have 2: "nvhost_module_get_rate env0 host0 0 [] =
     Inr (0, Some 100,
          Nvhost_module 1 desc0 0 True 2 [Clk 10, Clk 11, Clk_null] [] True None,
          [Mutex_lock 1, Cancel_delayed_work 1, Tegra_unpowergate_partition 3,
           Clk_enable (Clk 10), Clk_enable (Clk 11), Desc_finalize_poweron 1, Mutex_unlock 1,
           Clk_get_rate (Clk 10),
           Mutex_lock 1, Schedule_delayed_work 1 50, Mutex_unlock 1, Wake_up 1])"
    by (simp add: host0_def)
  from t3 n have 3: "\<not> powered (fst (nvhost_module_busy env0 host_neg []))"
    and 4: "snd (nvhost_module_busy env0 host_neg []) =
       [Mutex_lock 1, Cancel_delayed_work 1, Mutex_unlock 1]"
    by (simp_all add: case_prod_beta host_neg_def desc0_def)
  from a b z t1 bz 2 3 4 show ?thesis by simp
qed

text \<open>
  C9, as the specification has it, fails.  An \<open>idle(1)\<close> on the fresh host returns
  normally and leaves the count at \<open>-1\<close>.  On that module \<open>get_rate(0)\<close> returns 0 with
  a rate, but its \<open>busy()\<close> took the count to 0 without powering the module up: the
  rate was read with the module unpowered and no clock enabled.
\<close>

theorem get_rate_unpowered_counterexample:
  "nvhost_module_idle_mult env0 host0 1 [] = Inr (host_neg, [Mutex_lock 1, Mutex_unlock 1]) \<and>
   in_bounds (clk host_neg) 0 \<and> \<not> IS_ERR_OR_NULL (clk host_neg ! nat 0) \<and>
   nvhost_module_busy env0 host_neg [] =
     (Nvhost_module 1 desc0 0 False 2 [Clk 10, Clk 11, Clk_null] [] False None,
      [Mutex_lock 1, Cancel_delayed_work 1, Mutex_unlock 1]) \<and>
   \<not> powered (fst (nvhost_module_busy env0 host_neg [])) \<and>
   nvhost_module_get_rate env0 host_neg 0 [] =
     Inr (0, Some 100, host_neg,
          [Mutex_lock 1, Cancel_delayed_work 1, Mutex_unlock 1, Clk_get_rate (Clk 10),
           Mutex_lock 1, Mutex_unlock 1])"
  by (simp add: nvhost_module_get_rate_def nvhost_module_idle_def nvhost_module_idle_mult_def
        host0_def host_neg_def desc0_def env0_def in_bounds_def IS_ERR_OR_NULL_def Let_def
        set_refcount_def set_powerdown_def)

subsection \<open>Setting a rate on a missing clock\<close>

lemma store_rate_total:
  "in_bounds cks index \<Longrightarrow> \<forall>c\<in>set cs. length (rate c) = length cks \<Longrightarrow>
     \<exists>cs'. store_rate e cks p r index cs = Inr cs'"
  by (induction cs) (auto simp: in_bounds_def)

text \<open>
  C10.  \<open>set_rate\<close> on a clock index whose handle is the null pointer returns \<open>-EINVAL\<close>
  (from \<open>nvhost_module_update_rate\<close>), with every client's vote array as long as the
  clock array.  No rate is applied; only the registry lock is taken and released.
\<close>

theorem set_rate_no_clock:
  "in_bounds (clk m) index \<Longrightarrow> clk m ! nat index = Clk_null \<Longrightarrow>
   \<forall>c\<in>set (client_list m). length (rate c) = length (clk m) \<Longrightarrow>
     \<exists>cs. nvhost_module_set_rate e m p r index tr =
            Inr (- EINVAL, set_client_list cs m, tr @ [Client_list_lock, Client_list_unlock])"
proof -
  assume ib: "in_bounds (clk m) index" and nc: "clk m ! nat index = Clk_null"
    and wf: "\<forall>c\<in>set (client_list m). length (rate c) = length (clk m)"
  from store_rate_total [OF ib wf]
  obtain cs where "store_rate e (clk m) p r index (client_list m) = Inr cs" by blast
  then have "nvhost_module_set_rate e m p r index tr =
      Inr (- EINVAL, set_client_list cs m, tr @ [Client_list_lock, Client_list_unlock])"
    using ib nc by (simp add: nvhost_module_set_rate_def nvhost_module_update_rate_def Let_def)
  then show ?thesis by blast
qed

theorem set_rate_no_clock_witness:
  "in_bounds (clk host0) 2 \<and> clk host0 ! nat 2 = Clk_null \<and>
   (\<exists>cs. nvhost_module_set_rate env0 host0 7 150 2 [] =
      Inr (- EINVAL, set_client_list cs host0, [Client_list_lock, Client_list_unlock]))"
proof -
  have a: "in_bounds (clk host0) 2" and b: "clk host0 ! nat 2 = Clk_null"
    and c: "\<forall>c\<in>set (client_list host0). length (rate c) = length (clk host0)"
    by (simp_all add: host0_def in_bounds_def)
  from set_rate_no_clock [OF a b c, of env0 7 150 "[]"] a b show ?thesis by simp
qed

subsection \<open>Client rate registry\<close>

text \<open>
  C2 fails on the code at a token that no record carries.  The loop then ends with the
  cursor on the list head, which is not null, so the test after the loop succeeds: the
  list head is handed to \<open>kfree\<close> and the rate of every clock is recomputed and applied
  again, although nothing was erased.  Here the only record belongs to token 5 and token
  7 is removed.
\<close>

theorem remove_client_absent_token:
  "nvhost_module_remove_client env0 host_a 7 [] =
     Inr (host_a,
          [Client_list_lock, Kfree (Head_container 1),
           Clk_set_rate (Clk 10) 100, Clk_set_rate (Clk 11) 200, Client_list_unlock])"
  by (simp add: nvhost_module_remove_client_def host_a_def host0_def env0_def desc0_def
        nvhost_module_update_rate_def in_bounds_def Let_def set_client_list_def upt_rec)


lemma max_rate_fold:
  "\<forall>c\<in>set cs. i < length (rate c) \<Longrightarrow>
     max_rate cs i r = Inr (fold max (map (\<lambda>c. rate c ! i) cs) r)"
  by (induction cs arbitrary: r) simp_all

lemma fold_max_votes:
  fixes vs :: "rate list"
  shows "fold max vs 0 =
     (if filter (\<lambda>r. r \<noteq> 0) vs = [] then 0 else Max (set (filter (\<lambda>r. r \<noteq> 0) vs)))"
proof -
  have m: "fold max vs 0 = Max (insert 0 (set vs))"
    using Max.set_eq_fold [of 0 vs] by simp
  show ?thesis
  proof (cases "filter (\<lambda>r. r \<noteq> 0) vs = []")
    case True
    then have "set vs \<subseteq> {0}" by (auto simp: filter_empty_conv)
    then have "insert 0 (set vs) = {0}" by auto
    with m True show ?thesis by simp
  next
    case False
    let ?S = "set (filter (\<lambda>r. r \<noteq> 0) vs)"
    have ne: "?S \<noteq> {}" using False by (simp del: set_filter)
    have "insert 0 (set vs) = insert 0 ?S" by auto
    then have "Max (insert 0 (set vs)) = max 0 (Max ?S)"
      using ne by (simp del: set_filter)
    also have "\<dots> = Max ?S" by (simp add: max_def)
    finally show ?thesis using m False by simp
  qed
qed

lemma max_rate_votes:
  "\<forall>c\<in>set (client_list m). i < length (rate c) \<Longrightarrow>
     max_rate (client_list m) i 0 =
       Inr (if votes m i = [] then 0 else Max (set (votes m i)))"
  by (simp add: max_rate_fold fold_max_votes votes_def)

lemma Max_votes_nonzero: "votes m i \<noteq> [] \<Longrightarrow> Max (set (votes m i)) \<noteq> 0"
proof -
  assume ne: "votes m i \<noteq> []"
  then have "Max (set (votes m i)) \<in> set (votes m i)"
    by (intro Max_in) simp_all
  then show ?thesis by (simp add: votes_def)
qed

lemma update_rate_effective:
  assumes "in_bounds (clk m) index" "clk m ! nat index \<noteq> Clk_null"
    and "in_bounds (clocks (desc m)) index"
    and "\<forall>c\<in>set (client_list m). nat index < length (rate c)"
  shows "nvhost_module_update_rate e m index tr =
     Inr (clk_set_rate e tr (clk m ! nat index) (effective_rate_spec e m (nat index)),
          tr @ [Clk_set_rate (clk m ! nat index) (effective_rate_spec e m (nat index))])"
  using assms Max_votes_nonzero [of m "nat index"]
  by (simp add: nvhost_module_update_rate_def max_rate_votes effective_rate_spec_def Let_def)

lemma map_filter_append:
  "List.map_filter f (xs @ ys) = List.map_filter f xs @ List.map_filter f ys"
  by (simp add: List.map_filter_def)

lemma applied_rate_alt:
  "applied_rate tr c =
     (if List.map_filter (set_rate_of c) tr = [] then None
      else Some (last (List.map_filter (set_rate_of c) tr)))"
  by (simp add: applied_rate_def split: list.splits)

lemma applied_rate_append:
  "applied_rate (xs @ ys) c =
     (case applied_rate ys c of Some r \<Rightarrow> Some r | None \<Rightarrow> applied_rate xs c)"
  by (simp add: applied_rate_alt map_filter_append)

lemma applied_rate_single: "applied_rate [ev] c = set_rate_of c ev"
  by (cases "set_rate_of c ev") (simp_all add: applied_rate_alt)

lemma applied_rate_Nil [simp]: "applied_rate [] c = None"
  by (simp add: applied_rate_alt)

lemma applied_rate_Cons:
  "applied_rate (ev # tr) c =
     (case applied_rate tr c of Some r \<Rightarrow> Some r | None \<Rightarrow> set_rate_of c ev)"
  using applied_rate_append [of "[ev]" tr c]
  by (simp add: applied_rate_single split: option.splits)


lemma store_rate_lengths:
  "store_rate e cks p r index cs = Inr cs' \<Longrightarrow> \<forall>c\<in>set cs. length (rate c) = n \<Longrightarrow>
     \<forall>c\<in>set cs'. length (rate c) = n"
  by (induction cs arbitrary: cs') (auto split: if_splits sum.splits)

lemma set_rate_applies:
  assumes ib: "in_bounds (clk m) index" and nn: "clk m ! nat index \<noteq> Clk_null"
    and cl: "length (clocks (desc m)) = length (clk m)"
    and wf: "\<forall>c\<in>set (client_list m). length (rate c) = length (clk m)"
  shows "\<exists>ret m'. nvhost_module_set_rate e m p r index tr =
            Inr (ret, m',
                 tr @ [Client_list_lock,
                       Clk_set_rate (clk m ! nat index) (effective_rate_spec e m' (nat index)),
                       Client_list_unlock]) \<and>
            clk m' = clk m \<and> desc m' = desc m"
proof -
  from store_rate_total [OF ib wf]
  obtain cs where st: "store_rate e (clk m) p r index (client_list m) = Inr cs" by blast
  let ?m1 = "set_client_list cs m"
  have wf1: "\<forall>c\<in>set (client_list ?m1). nat index < length (rate c)"
    using store_rate_lengths [OF st wf] ib by (simp add: in_bounds_def)
  have ib1: "in_bounds (clk ?m1) index" and nn1: "clk ?m1 ! nat index \<noteq> Clk_null"
    and cl1: "in_bounds (clocks (desc ?m1)) index"
    using ib nn cl by (simp_all add: in_bounds_def)
  note u = update_rate_effective [OF ib1 nn1 cl1 wf1, of e "tr @ [Client_list_lock]"]
  show ?thesis
    using st u by (simp add: nvhost_module_set_rate_def Let_def)
qed

lemma find_del_present:
  "p \<in> priv ` set cs \<Longrightarrow>
     \<exists>cs'. find_del s p cs = (Entry p, cs') \<and> set cs' \<subseteq> set cs \<and> length cs = Suc (length cs')"
  by (induction cs) (auto split: prod.splits)

lemma update_rates_effective:
  "\<forall>i\<in>set is. i < length (clk m) \<and> clk m ! i \<noteq> Clk_null \<and> i < length (clocks (desc m)) \<and>
      (\<forall>c\<in>set (client_list m). i < length (rate c)) \<Longrightarrow>
     update_rates e m is tr =
       Inr (tr @ map (\<lambda>i. Clk_set_rate (clk m ! i) (effective_rate_spec e m i)) is)"
proof (induction "is" arbitrary: tr)
  case Nil
  then show ?case by simp
next
  case (Cons i "is")
  have "nvhost_module_update_rate e m (int i) tr =
     Inr (clk_set_rate e tr (clk m ! nat (int i)) (effective_rate_spec e m (nat (int i))),
          tr @ [Clk_set_rate (clk m ! nat (int i)) (effective_rate_spec e m (nat (int i)))])"
    using Cons.prems by (intro update_rate_effective) (simp_all add: in_bounds_def)
  then show ?case using Cons by simp
qed

lemma applied_rate_indexed:
  "distinct (take n cks) \<Longrightarrow> n \<le> length cks \<Longrightarrow> i < n \<Longrightarrow> applied_rate post (cks ! i) = None \<Longrightarrow>
     applied_rate (pre @ map (\<lambda>j. Clk_set_rate (cks ! j) (f j)) [0..<n] @ post) (cks ! i) =
       Some (f i)"
proof (induction n arbitrary: post)
  case 0
  then show ?case by simp
next
  case (Suc n)
  show ?case
  proof (cases "i = n")
    case True
    then show ?thesis using Suc.prems(4)
      by (simp add: applied_rate_append applied_rate_Cons)
  next
    case False
    then have lt: "i < n" using Suc.prems(3) by simp
    have d: "distinct (take n cks)"
      using Suc.prems(1) by (metis distinct_take take_take min.absorb1 le_add2 plus_1_eq_Suc)
    have "take (Suc n) cks ! i \<noteq> take (Suc n) cks ! n"
      using Suc.prems(1,2) lt by (simp add: nth_eq_iff_index_eq del: nth_take)
    then have ne: "cks ! n \<noteq> cks ! i" using lt by auto
    then have "applied_rate (Clk_set_rate (cks ! n) (f n) # post) (cks ! i) = None"
      using Suc.prems(4) by (simp add: applied_rate_Cons)
    from Suc.IH [OF d _ lt this] Suc.prems(2)
    show ?thesis by simp
  qed
qed


lemma remove_client_applies:
  assumes pin: "p \<in> priv ` set (client_list m)"
    and nl: "num_clks m \<le> length (clk m)"
    and cl: "length (clocks (desc m)) = length (clk m)"
    and wf: "\<forall>c\<in>set (client_list m). length (rate c) = length (clk m)"
    and nn: "\<forall>i<num_clks m. clk m ! i \<noteq> Clk_null"
    and d: "distinct (take (num_clks m) (clk m))"
  shows "\<exists>m' tr'. nvhost_module_remove_client e m p tr = Inr (m', tr') \<and>
           clk m' = clk m \<and> desc m' = desc m \<and> num_clks m' = num_clks m \<and>
           length (client_list m) = Suc (length (client_list m')) \<and>
           (\<forall>i<num_clks m. applied_rate tr' (clk m ! i) = Some (effective_rate_spec e m' i))"
proof -
  from find_del_present [OF pin, of "self m"]
  obtain cs where fd: "find_del (self m) p (client_list m) = (Entry p, cs)"
    and sub: "set cs \<subseteq> set (client_list m)"
    and len: "length (client_list m) = Suc (length cs)" by blast
  let ?m1 = "set_client_list cs m"
  let ?ev = "map (\<lambda>i. Clk_set_rate (clk m ! i) (effective_rate_spec e ?m1 i)) [0..<num_clks m]"
  have "\<forall>i\<in>set [0..<num_clks ?m1]. i < length (clk ?m1) \<and> clk ?m1 ! i \<noteq> Clk_null \<and>
          i < length (clocks (desc ?m1)) \<and> (\<forall>c\<in>set (client_list ?m1). i < length (rate c))"
    using nl cl wf nn sub by auto
  from update_rates_effective [OF this, of e "tr @ [Client_list_lock, Kfree (Entry p)]"]
  have ur: "update_rates e ?m1 [0..<num_clks m] (tr @ [Client_list_lock, Kfree (Entry p)]) =
              Inr (tr @ [Client_list_lock, Kfree (Entry p)] @ ?ev)"
    by simp
  have res: "nvhost_module_remove_client e m p tr =
               Inr (?m1, (tr @ [Client_list_lock, Kfree (Entry p)]) @ ?ev @ [Client_list_unlock])"
    using fd ur by (simp add: nvhost_module_remove_client_def Let_def)
  have "applied_rate ((tr @ [Client_list_lock, Kfree (Entry p)]) @ ?ev @ [Client_list_unlock])
          (clk m ! i) = Some (effective_rate_spec e ?m1 i)" if "i < num_clks m" for i
    using d nl that by (rule applied_rate_indexed) (simp add: applied_rate_single)
  with res len show ?thesis by simp
qed

lemma effective_rate_no_clients:
  "client_list m = [] \<Longrightarrow>
     effective_rate_spec e m i = clk_round_rate e (clk m ! i) (default_rate (clocks (desc m) ! i))"
  by (simp add: effective_rate_spec_def votes_def)

lemma add_client_appends:
  assumes "\<not> kzalloc_fails e tr" "num_clks m \<le> length (clk m)"
    "length (clocks (desc m)) = length (clk m)"
  shows "\<exists>c. nvhost_module_add_client e m p tr =
            Inr (0, set_client_list (client_list m @ [c]) m,
                 tr @ [Client_list_lock, Client_list_unlock]) \<and>
          priv c = p \<and> length (rate c) = length (clk m) \<and>
          (\<forall>i<num_clks m. rate c ! i =
             clk_round_rate e (clk m ! i) (default_rate (clocks (desc m) ! i)))"
proof -
  let ?c = "\<lparr>rate = map (\<lambda>i. if i < num_clks m
                                then clk_round_rate e (clk m ! i)
                                       (default_rate (clocks (desc m) ! i))
                                else 0) [0..<length (clk m)],
             priv = p\<rparr>"
  have "nvhost_module_add_client e m p tr =
          Inr (0, set_client_list (client_list m @ [?c]) m,
               tr @ [Client_list_lock, Client_list_unlock])"
    using assms by (simp add: nvhost_module_add_client_def Let_def)
  moreover have "priv ?c = p" "length (rate ?c) = length (clk m)" by simp_all
  moreover have "\<forall>i<num_clks m. rate ?c ! i =
      clk_round_rate e (clk m ! i) (default_rate (clocks (desc m) ! i))"
    using assms(2) by simp
  ultimately show ?thesis by blast
qed

text \<open>
  C5, as the code has it.  After \<open>set_rate\<close> on an index with a clock, the rate last
  applied to that clock is the effective rate of the specification: the maximum of the
  votes, or the rounded default when no client has a vote other than 0.  After
  \<open>remove_client\<close> of a registered token the same holds for every index below
  \<open>num_clks\<close>, and removing the only client restores the rounded defaults.
  \<open>add_client\<close> applies no rate: it appends a record voting the rounded defaults and
  leaves the rate last applied to every clock as it was.
\<close>

theorem registry_applied_rate:
  assumes wf: "\<forall>c\<in>set (client_list m). length (rate c) = length (clk m)"
    and cl: "length (clocks (desc m)) = length (clk m)"
    and nl: "num_clks m \<le> length (clk m)"
  shows
    "(in_bounds (clk m) index \<and> clk m ! nat index \<noteq> Clk_null \<longrightarrow>
        (\<exists>ret m' tr'. nvhost_module_set_rate e m p r index tr = Inr (ret, m', tr') \<and>
           applied_rate tr' (clk m' ! nat index) =
             Some (effective_rate_spec e m' (nat index)))) \<and>
     (p \<in> priv ` set (client_list m) \<and> (\<forall>i<num_clks m. clk m ! i \<noteq> Clk_null) \<and>
      distinct (take (num_clks m) (clk m)) \<longrightarrow>
        (\<exists>m' tr'. nvhost_module_remove_client e m p tr = Inr (m', tr') \<and>
           (\<forall>i<num_clks m. applied_rate tr' (clk m' ! i) = Some (effective_rate_spec e m' i)) \<and>
           (length (client_list m) = 1 \<longrightarrow>
              (\<forall>i<num_clks m. applied_rate tr' (clk m' ! i) =
                 Some (clk_round_rate e (clk m ! i) (default_rate (clocks (desc m) ! i))))))) \<and>
     (\<not> kzalloc_fails e tr \<longrightarrow>
        (\<exists>c. nvhost_module_add_client e m p tr =
                Inr (0, set_client_list (client_list m @ [c]) m,
                     tr @ [Client_list_lock, Client_list_unlock]) \<and>
              priv c = p \<and>
              (\<forall>i<num_clks m. rate c ! i =
                 clk_round_rate e (clk m ! i) (default_rate (clocks (desc m) ! i))) \<and>
              (\<forall>k. applied_rate (tr @ [Client_list_lock, Client_list_unlock]) k =
                 applied_rate tr k)))"
proof (intro conjI impI)
  assume a: "in_bounds (clk m) index \<and> clk m ! nat index \<noteq> Clk_null"
  from set_rate_applies [OF conjunct1 [OF a] conjunct2 [OF a] cl wf, of e p r tr]
  obtain ret m' where
    "nvhost_module_set_rate e m p r index tr =
       Inr (ret, m', tr @ [Client_list_lock,
              Clk_set_rate (clk m ! nat index) (effective_rate_spec e m' (nat index)),
              Client_list_unlock])"
    and "clk m' = clk m" by blast
  then show "\<exists>ret m' tr'. nvhost_module_set_rate e m p r index tr = Inr (ret, m', tr') \<and>
      applied_rate tr' (clk m' ! nat index) = Some (effective_rate_spec e m' (nat index))"
    by (simp add: applied_rate_append applied_rate_Cons)
next
  assume b: "p \<in> priv ` set (client_list m) \<and> (\<forall>i<num_clks m. clk m ! i \<noteq> Clk_null) \<and>
      distinct (take (num_clks m) (clk m))"
  then have pin: "p \<in> priv ` set (client_list m)"
    and nn: "\<forall>i<num_clks m. clk m ! i \<noteq> Clk_null"
    and d: "distinct (take (num_clks m) (clk m))" by blast+
  from remove_client_applies [OF pin nl cl wf nn d, of e tr]
  obtain m' tr' where r: "nvhost_module_remove_client e m p tr = Inr (m', tr')"
    and k: "clk m' = clk m" "desc m' = desc m"
    and len: "length (client_list m) = Suc (length (client_list m'))"
    and ap: "\<forall>i<num_clks m. applied_rate tr' (clk m ! i) = Some (effective_rate_spec e m' i)"
    by blast
  have "length (client_list m) = 1 \<Longrightarrow> client_list m' = []" using len by simp
  then have "length (client_list m) = 1 \<Longrightarrow>
      effective_rate_spec e m' i = clk_round_rate e (clk m ! i) (default_rate (clocks (desc m) ! i))"
    for i using effective_rate_no_clients [of m' e i] k by simp
  with r k ap
  show "\<exists>m' tr'. nvhost_module_remove_client e m p tr = Inr (m', tr') \<and>
      (\<forall>i<num_clks m. applied_rate tr' (clk m' ! i) = Some (effective_rate_spec e m' i)) \<and>
      (length (client_list m) = 1 \<longrightarrow>
         (\<forall>i<num_clks m. applied_rate tr' (clk m' ! i) =
            Some (clk_round_rate e (clk m ! i) (default_rate (clocks (desc m) ! i)))))"
    by auto
next
  assume c: "\<not> kzalloc_fails e tr"
  from add_client_appends [OF c nl cl, of p]
  show "\<exists>c. nvhost_module_add_client e m p tr =
          Inr (0, set_client_list (client_list m @ [c]) m,
               tr @ [Client_list_lock, Client_list_unlock]) \<and>
        priv c = p \<and>
        (\<forall>i<num_clks m. rate c ! i =
           clk_round_rate e (clk m ! i) (default_rate (clocks (desc m) ! i))) \<and>
        (\<forall>k. applied_rate (tr @ [Client_list_lock, Client_list_unlock]) k = applied_rate tr k)"
    by (auto simp: applied_rate_append applied_rate_Cons)
qed

theorem registry_applied_rate_witness:
  "(\<exists>ret m' tr'. nvhost_module_set_rate env0 host_a 5 50 0 [] = Inr (ret, m', tr') \<and>
      applied_rate tr' (clk m' ! nat 0) = Some (effective_rate_spec env0 m' (nat 0))) \<and>
   (\<exists>m' tr'. nvhost_module_remove_client env0 host_a 5 [] = Inr (m', tr') \<and>
      applied_rate tr' (clk m' ! 0) = Some 100 \<and> applied_rate tr' (clk m' ! 1) = Some 200) \<and>
   (\<exists>c. nvhost_module_add_client env0 host_a 6 [] =
      Inr (0, set_client_list (client_list host_a @ [c]) host_a,
           [Client_list_lock, Client_list_unlock]) \<and> priv c = 6)"
proof -
  have wf: "\<forall>c\<in>set (client_list host_a). length (rate c) = length (clk host_a)"
    and cl: "length (clocks (desc host_a)) = length (clk host_a)"
    and nl: "num_clks host_a \<le> length (clk host_a)"
    by (simp_all add: host_a_def host0_def desc0_def)
  note t = registry_applied_rate [OF wf cl nl, of 0 env0 5 50 "[]"]
  note u = registry_applied_rate [OF wf cl nl, of 0 env0 6 50 "[]"]
  have a: "in_bounds (clk host_a) 0 \<and> clk host_a ! nat 0 \<noteq> Clk_null"
    by (simp add: host_a_def host0_def in_bounds_def)
  have b: "5 \<in> priv ` set (client_list host_a) \<and> (\<forall>i<num_clks host_a. clk host_a ! i \<noteq> Clk_null) \<and>
      distinct (take (num_clks host_a) (clk host_a))"
    by (simp add: host_a_def host0_def less_Suc_eq numeral_2_eq_2)
  have c: "\<not> kzalloc_fails env0 []" by (simp add: env0_def)
  have one: "length (client_list host_a) = 1" by (simp add: host_a_def)
  have n: "num_clks host_a = 2" by (simp add: host_a_def host0_def)
  from t [THEN conjunct2, THEN conjunct1, rule_format, OF b]
  obtain m' tr' where r: "nvhost_module_remove_client env0 host_a 5 [] = Inr (m', tr')"
    and d: "length (client_list host_a) = 1 \<longrightarrow>
      (\<forall>i<num_clks host_a. applied_rate tr' (clk m' ! i) =
         Some (clk_round_rate env0 (clk host_a ! i) (default_rate (clocks (desc host_a) ! i))))"
    by blast
  from d one n
  have "applied_rate tr' (clk m' ! 0) = Some 100" "applied_rate tr' (clk m' ! 1) = Some 200"
    by (simp_all add: host_a_def host0_def desc0_def env0_def)
  with r have rm: "\<exists>m' tr'. nvhost_module_remove_client env0 host_a 5 [] = Inr (m', tr') \<and>
      applied_rate tr' (clk m' ! 0) = Some 100 \<and> applied_rate tr' (clk m' ! 1) = Some 200"
    by blast
  from u [THEN conjunct2, THEN conjunct2, rule_format, OF c]
  have ad: "\<exists>c. nvhost_module_add_client env0 host_a 6 [] =
      Inr (0, set_client_list (client_list host_a @ [c]) host_a,
           [Client_list_lock, Client_list_unlock]) \<and> priv c = 6"
    by auto
  from t [THEN conjunct1, rule_format, OF a] rm ad show ?thesis by blast
qed

text \<open>
  C5, as the specification has it, fails after \<open>add_client\<close>.  Client 5 registers and
  votes 50 on clock 0, which is applied; then client 6 registers with the default vote
  100.  The operation completes with 50 still applied, while the maximum of the votes
  is 100.
\<close>

theorem add_client_rate_counterexample:
  "nvhost_module_add_client env0 host0 5 [] =
     Inr (0, host_a, [Client_list_lock, Client_list_unlock]) \<and>
   nvhost_module_set_rate env0 host_a 5 50 0 [Client_list_lock, Client_list_unlock] =
     Inr (0, host_a50,
          [Client_list_lock, Client_list_unlock,
           Client_list_lock, Clk_set_rate (Clk 10) 50, Client_list_unlock]) \<and>
   nvhost_module_add_client env0 host_a50 6
       [Client_list_lock, Client_list_unlock,
        Client_list_lock, Clk_set_rate (Clk 10) 50, Client_list_unlock] =
     Inr (0, host_ab,
          [Client_list_lock, Client_list_unlock,
           Client_list_lock, Clk_set_rate (Clk 10) 50, Client_list_unlock,
           Client_list_lock, Client_list_unlock]) \<and>
   applied_rate
       [Client_list_lock, Client_list_unlock,
        Client_list_lock, Clk_set_rate (Clk 10) 50, Client_list_unlock,
        Client_list_lock, Client_list_unlock] (clk host_ab ! 0) = Some 50 \<and>
   votes host_ab 0 = [50, 100] \<and>
   effective_rate_spec env0 host_ab 0 = 100"
  by (simp add: nvhost_module_add_client_def nvhost_module_set_rate_def
        nvhost_module_update_rate_def host_a_def host_a50_def host_ab_def host0_def env0_def
        desc0_def in_bounds_def Let_def set_client_list_def upt_rec applied_rate_def
        List.map_filter_def votes_def effective_rate_spec_def)

subsection \<open>Locks of a module and of its parent\<close>

lemma both_held_now: "a \<in> H \<Longrightarrow> b \<in> H \<Longrightarrow> both_held H a b tr"
  by (cases tr) simp_all

lemma both_held_after_lock:
  "a \<in> H \<Longrightarrow> \<forall>ev\<in>set mid. \<forall>x. ev \<noteq> Mutex_unlock x \<Longrightarrow>
     both_held H a b (mid @ Mutex_lock b # rest)"
proof (induction mid arbitrary: H)
  case Nil
  then show ?case by (simp add: both_held_now)
next
  case (Cons ev mid)
  have "a \<in> lock_step H ev" using Cons.prems by (cases ev) auto
  then have "both_held (lock_step H ev) a b (mid @ Mutex_lock b # rest)"
    using Cons.prems by (intro Cons.IH) simp_all
  then show ?case by simp
qed

lemma both_held_child_parent:
  "\<forall>ev\<in>set mid. \<forall>x. ev \<noteq> Mutex_unlock x \<Longrightarrow>
     both_held {} a b (Mutex_lock a # mid @ Mutex_lock b # rest)"
  using both_held_after_lock [of a "{a}" mid b rest] by simp

lemma busy_trace_starts:
  "\<exists>rest. snd (nvhost_module_busy e m tr) = tr @ Mutex_lock (self m) # rest"
proof (induction e m tr rule: nvhost_module_busy.induct)
  case (1 e s d r pw n c cl pd par tr)
  show ?case
  proof (cases par)
    case None
    then show ?thesis
      by (simp add: Let_def clock_enable_def unpowergate_def)
  next
    case (Some p)
    let ?tr2 = "if busy d then (tr @ [Mutex_lock s, Cancel_delayed_work s]) @ [Desc_busy s]
                else tr @ [Mutex_lock s, Cancel_delayed_work s]"
    show ?thesis
    proof (cases "r + 1 = 1 \<and> \<not> pw")
      case False
      then show ?thesis by (auto simp: Let_def)
    next
      case True
      from "1.IH" [OF refl refl refl True Some]
      obtain rest where "snd (nvhost_module_busy e p ?tr2) = ?tr2 @ Mutex_lock (self p) # rest"
        by blast
      then show ?thesis using True Some
        by (auto simp: Let_def clock_enable_def unpowergate_def split: prod.splits)
    qed
  qed
qed

lemma idle_trace_starts:
  "nvhost_module_idle e p T = Inr (p', t5) \<Longrightarrow> \<exists>rest. t5 = T @ Mutex_lock (self p) # rest"
  by (auto simp: nvhost_module_idle_def nvhost_module_idle_mult_def Let_def split: if_splits)

lemma handler_locks_parent:
  assumes "refcount m = 0" "powered m" "parent m = Some p"
    and "\<not> (prepare_poweroff (desc m) \<and>
            prepare_poweroff_ret e (tr @ [Mutex_lock (self m)]) (self m) \<noteq> 0)"
    and "powerdown_handler e m tr = Inr (m', tr')"
  shows "both_held {} (self m) (self p) (drop (length tr) tr')"
proof -
  let ?mid = "(if prepare_poweroff (desc m) then [Desc_prepare_poweroff (self m)] else [])
      @ map Clk_disable (take (num_clks m) (clk m))
      @ (if can_powergate (desc m) then
           (if fst (powergate_ids (desc m)) \<noteq> -1
            then [Tegra_powergate_partition (fst (powergate_ids (desc m)))] else [])
           @ (if snd (powergate_ids (desc m)) \<noteq> -1
              then [Tegra_powergate_partition (snd (powergate_ids (desc m)))] else [])
         else [])"
  let ?T = "tr @ Mutex_lock (self m) # ?mid"
  have T: "powergate m (clock_disable m
             (if prepare_poweroff (desc m)
              then (tr @ [Mutex_lock (self m)]) @ [Desc_prepare_poweroff (self m)]
              else tr @ [Mutex_lock (self m)])) = ?T"
    by (simp add: powergate_def clock_disable_def)
  from assms obtain p' t5 where i: "nvhost_module_idle e p ?T = Inr (p', t5)"
    and tr': "tr' = t5 @ [Mutex_unlock (self m)]"
    unfolding powerdown_handler_def Let_def T
    by (auto split: sum.splits if_splits)
  from idle_trace_starts [OF i] obtain rest where "t5 = ?T @ Mutex_lock (self p) # rest"
    by blast
  then have "drop (length tr) tr' =
      Mutex_lock (self m) # ?mid @ Mutex_lock (self p) # (rest @ [Mutex_unlock (self m)])"
    using tr' by simp
  moreover have "\<forall>ev\<in>set ?mid. \<forall>x. ev \<noteq> Mutex_unlock x" by auto
  ultimately show ?thesis by (simp only: both_held_child_parent)
qed

lemma busy_locks_parent:
  assumes "refcount m = 0" "\<not> powered m" "parent m = Some p"
  shows "both_held {} (self m) (self p) (drop (length tr) (snd (nvhost_module_busy e m tr)))"
proof -
  let ?mid = "Cancel_delayed_work (self m) # (if busy (desc m) then [Desc_busy (self m)] else [])"
  let ?tr2 = "tr @ [Mutex_lock (self m), Cancel_delayed_work (self m)]
                 @ (if busy (desc m) then [Desc_busy (self m)] else [])"
  from busy_trace_starts [of e p ?tr2]
  obtain rest where r: "snd (nvhost_module_busy e p ?tr2) = ?tr2 @ Mutex_lock (self p) # rest"
    by blast
  have "\<exists>X. snd (nvhost_module_busy e m tr) = snd (nvhost_module_busy e p ?tr2) @ X"
    using assms
    by (simp add: busy_power_up Let_def clock_enable_def unpowergate_def case_prod_beta)
  then obtain X where "snd (nvhost_module_busy e m tr) =
      tr @ Mutex_lock (self m) # ?mid @ Mutex_lock (self p) # (rest @ X)"
    using r by auto
  then have "drop (length tr) (snd (nvhost_module_busy e m tr)) =
      Mutex_lock (self m) # ?mid @ Mutex_lock (self p) # (rest @ X)"
    by simp
  moreover have "\<forall>ev\<in>set ?mid. \<forall>x. ev \<noteq> Mutex_unlock x" by auto
  ultimately show ?thesis by (simp only: both_held_child_parent)
qed


lemma ancestors_parent: "parent m = Some p \<Longrightarrow> ancestors m = self p # ancestors p"
  by (cases m) simp

lemma busy_events_shape:
  "\<exists>X. snd (nvhost_module_busy e m tr) = tr @ Mutex_lock (self m) # X @ [Mutex_unlock (self m)] \<and>
       (\<forall>ev\<in>set X. \<forall>x. ev = Mutex_lock x \<or> ev = Mutex_unlock x \<longrightarrow> x \<in> set (ancestors m))"
proof (induction e m tr rule: nvhost_module_busy.induct)
  case (1 e s d r pw n c cl pd par tr)
  let ?m = "Nvhost_module s d r pw n c cl pd par"
  let ?B = "Cancel_delayed_work s # (if busy d then [Desc_busy s] else [])"
  let ?tr2 = "if busy d then (tr @ [Mutex_lock s, Cancel_delayed_work s]) @ [Desc_busy s]
              else tr @ [Mutex_lock s, Cancel_delayed_work s]"
  have tr2: "?tr2 = tr @ Mutex_lock s # ?B" by simp
  show ?case
  proof (cases "r + 1 = 1 \<and> \<not> pw")
    case False
    then have "snd (nvhost_module_busy e ?m tr) = tr @ Mutex_lock s # ?B @ [Mutex_unlock s]"
      by (auto simp: Let_def)
    moreover have "\<forall>ev\<in>set ?B. \<forall>x. ev = Mutex_lock x \<or> ev = Mutex_unlock x \<longrightarrow>
        x \<in> set (ancestors ?m)" by auto
    ultimately show ?thesis by (simp only: nvhost_module.sel) blast
  next
    case True
    let ?E = "(if can_powergate d then
                 (if fst (powergate_ids d) \<noteq> -1
                  then [Tegra_unpowergate_partition (fst (powergate_ids d))] else [])
                 @ (if snd (powergate_ids d) \<noteq> -1
                    then [Tegra_unpowergate_partition (snd (powergate_ids d))] else [])
               else [])
              @ map Clk_enable (take n c)
              @ (if finalize_poweron d then [Desc_finalize_poweron s] else [])"
    have E: "\<forall>ev\<in>set ?E. \<forall>x. ev \<noteq> Mutex_lock x \<and> ev \<noteq> Mutex_unlock x" by auto
    show ?thesis
    proof (cases par)
      case None
      have "snd (nvhost_module_busy e ?m tr) = tr @ Mutex_lock s # (?B @ ?E) @ [Mutex_unlock s]"
        using True None by (simp add: Let_def clock_enable_def unpowergate_def)
      moreover have "\<forall>ev\<in>set (?B @ ?E). \<forall>x. ev = Mutex_lock x \<or> ev = Mutex_unlock x \<longrightarrow>
          x \<in> set (ancestors ?m)" by auto
      ultimately show ?thesis by (simp only: nvhost_module.sel) blast
    next
      case (Some p)
      from "1.IH" [OF refl refl refl True Some]
      obtain X where X: "snd (nvhost_module_busy e p ?tr2) =
            ?tr2 @ Mutex_lock (self p) # X @ [Mutex_unlock (self p)]"
        and Xa: "\<forall>ev\<in>set X. \<forall>x. ev = Mutex_lock x \<or> ev = Mutex_unlock x \<longrightarrow>
            x \<in> set (ancestors p)"
        by blast
      let ?Y = "?B @ Mutex_lock (self p) # X @ Mutex_unlock (self p) # ?E"
      have X': "snd (nvhost_module_busy e p (tr @ Mutex_lock s # ?B)) =
            (tr @ Mutex_lock s # ?B) @ Mutex_lock (self p) # X @ [Mutex_unlock (self p)]"
        using X by (simp only: tr2)
      have s1: "snd (nvhost_module_busy e ?m tr) =
            snd (nvhost_module_busy e p (tr @ Mutex_lock s # ?B)) @ ?E @ [Mutex_unlock s]"
        using True Some
        by (simp add: Let_def clock_enable_def unpowergate_def case_prod_beta)
      have "snd (nvhost_module_busy e ?m tr) = tr @ Mutex_lock s # ?Y @ [Mutex_unlock s]"
        by (simp only: s1 X') (simp del: nvhost_module_busy.simps)
      moreover have "\<forall>ev\<in>set ?Y. \<forall>x. ev = Mutex_lock x \<or> ev = Mutex_unlock x \<longrightarrow>
          x \<in> set (ancestors ?m)"
        using Xa E Some by auto
      ultimately show ?thesis by (simp only: nvhost_module.sel) blast
    qed
  qed
qed

lemma idle_events_shape:
  "nvhost_module_idle e p T = Inr (p', t5) \<Longrightarrow>
     \<exists>inner post. t5 = T @ Mutex_lock (self p) # inner @ Mutex_unlock (self p) # post \<and>
        (\<forall>ev\<in>set (inner @ post). \<forall>x. ev \<noteq> Mutex_lock x \<and> ev \<noteq> Mutex_unlock x)"
proof -
  assume a: "nvhost_module_idle e p T = Inr (p', t5)"
  show ?thesis
  proof (cases "refcount p - 1 = 0")
    case True
    let ?inner = "[Schedule_delayed_work (self p) (powerdown_delay (desc p))]"
    let ?post = "Wake_up (self p) # (if idle (desc p) then [Desc_idle (self p)] else [])"
    have "t5 = T @ Mutex_lock (self p) # ?inner @ Mutex_unlock (self p) # ?post"
      using a True
      by (auto simp: nvhost_module_idle_def nvhost_module_idle_mult_def Let_def split: if_splits)
    moreover have "\<forall>ev\<in>set (?inner @ ?post). \<forall>x. ev \<noteq> Mutex_lock x \<and> ev \<noteq> Mutex_unlock x"
      by auto
    ultimately show ?thesis by blast
  next
    case False
    have "t5 = T @ Mutex_lock (self p) # [] @ Mutex_unlock (self p) # []"
      using a False
      by (auto simp: nvhost_module_idle_def nvhost_module_idle_mult_def Let_def split: if_splits)
    moreover have "\<forall>ev\<in>set ([] @ [] :: event list). \<forall>x. ev \<noteq> Mutex_lock x \<and> ev \<noteq> Mutex_unlock x"
      by simp
    ultimately show ?thesis by blast
  qed
qed

lemma handler_lock_order:
  assumes "refcount m = 0" "powered m" "parent m = Some p"
    and "\<not> (prepare_poweroff (desc m) \<and>
            prepare_poweroff_ret e (tr @ [Mutex_lock (self m)]) (self m) \<noteq> 0)"
    and "powerdown_handler e m tr = Inr (m', tr')"
  shows "\<exists>mid inner post.
           drop (length tr) tr' =
             Mutex_lock (self m) # mid @ Mutex_lock (self p) # inner
               @ Mutex_unlock (self p) # post @ [Mutex_unlock (self m)] \<and>
           (\<forall>ev\<in>set (mid @ post). \<forall>x. ev \<noteq> Mutex_lock x \<and> ev \<noteq> Mutex_unlock x) \<and>
           (\<forall>ev\<in>set inner. ev \<noteq> Mutex_lock (self m) \<and> ev \<noteq> Mutex_unlock (self m))"
proof -
  let ?mid = "(if prepare_poweroff (desc m) then [Desc_prepare_poweroff (self m)] else [])
      @ map Clk_disable (take (num_clks m) (clk m))
      @ (if can_powergate (desc m) then
           (if fst (powergate_ids (desc m)) \<noteq> -1
            then [Tegra_powergate_partition (fst (powergate_ids (desc m)))] else [])
           @ (if snd (powergate_ids (desc m)) \<noteq> -1
              then [Tegra_powergate_partition (snd (powergate_ids (desc m)))] else [])
         else [])"
  let ?T = "tr @ Mutex_lock (self m) # ?mid"
  have T: "powergate m (clock_disable m
             (if prepare_poweroff (desc m)
              then (tr @ [Mutex_lock (self m)]) @ [Desc_prepare_poweroff (self m)]
              else tr @ [Mutex_lock (self m)])) = ?T"
    by (simp add: powergate_def clock_disable_def)
  from assms obtain p' t5 where i: "nvhost_module_idle e p ?T = Inr (p', t5)"
    and tr': "tr' = t5 @ [Mutex_unlock (self m)]"
    unfolding powerdown_handler_def Let_def T
    by (auto split: sum.splits if_splits)
  from idle_events_shape [OF i] obtain inner post
    where t5: "t5 = ?T @ Mutex_lock (self p) # inner @ Mutex_unlock (self p) # post"
      and nm: "\<forall>ev\<in>set (inner @ post). \<forall>x. ev \<noteq> Mutex_lock x \<and> ev \<noteq> Mutex_unlock x"
    by blast
  have "drop (length tr) tr' =
      Mutex_lock (self m) # ?mid @ Mutex_lock (self p) # inner
        @ Mutex_unlock (self p) # post @ [Mutex_unlock (self m)]"
    using tr' t5 by simp
  moreover have "\<forall>ev\<in>set (?mid @ post). \<forall>x. ev \<noteq> Mutex_lock x \<and> ev \<noteq> Mutex_unlock x"
    using nm by auto
  moreover have "\<forall>ev\<in>set inner. ev \<noteq> Mutex_lock (self m) \<and> ev \<noteq> Mutex_unlock (self m)"
    using nm by auto
  ultimately show ?thesis by blast
qed

lemma busy_lock_order:
  assumes pu: "refcount m = 0 \<and> \<not> powered m" and par: "parent m = Some p"
    and na: "self m \<notin> set (ancestors m)"
  shows "\<exists>mid inner post.
           drop (length tr) (snd (nvhost_module_busy e m tr)) =
             Mutex_lock (self m) # mid @ Mutex_lock (self p) # inner
               @ Mutex_unlock (self p) # post @ [Mutex_unlock (self m)] \<and>
           (\<forall>ev\<in>set (mid @ post). \<forall>x. ev \<noteq> Mutex_lock x \<and> ev \<noteq> Mutex_unlock x) \<and>
           (\<forall>ev\<in>set inner. ev \<noteq> Mutex_lock (self m) \<and> ev \<noteq> Mutex_unlock (self m))"
proof -
  let ?mid = "Cancel_delayed_work (self m) # (if busy (desc m) then [Desc_busy (self m)] else [])"
  let ?tr2 = "tr @ [Mutex_lock (self m), Cancel_delayed_work (self m)]
                 @ (if busy (desc m) then [Desc_busy (self m)] else [])"
  let ?post = "(if can_powergate (desc m) then
                 (if fst (powergate_ids (desc m)) \<noteq> -1
                  then [Tegra_unpowergate_partition (fst (powergate_ids (desc m)))] else [])
                 @ (if snd (powergate_ids (desc m)) \<noteq> -1
                    then [Tegra_unpowergate_partition (snd (powergate_ids (desc m)))] else [])
               else [])
              @ map Clk_enable (take (num_clks m) (clk m))
              @ (if finalize_poweron (desc m) then [Desc_finalize_poweron (self m)] else [])"
  from busy_events_shape [of e p ?tr2]
  obtain X where X: "snd (nvhost_module_busy e p ?tr2) =
        ?tr2 @ Mutex_lock (self p) # X @ [Mutex_unlock (self p)]"
    and Xa: "\<forall>ev\<in>set X. \<forall>x. ev = Mutex_lock x \<or> ev = Mutex_unlock x \<longrightarrow> x \<in> set (ancestors p)"
    by blast
  have "snd (nvhost_module_busy e m tr) =
      snd (nvhost_module_busy e p ?tr2) @ ?post @ [Mutex_unlock (self m)]"
    using pu par
    by (simp add: busy_power_up Let_def clock_enable_def unpowergate_def case_prod_beta)
  then have "drop (length tr) (snd (nvhost_module_busy e m tr)) =
      Mutex_lock (self m) # ?mid @ Mutex_lock (self p) # X
        @ Mutex_unlock (self p) # ?post @ [Mutex_unlock (self m)]"
    by (simp only: X) simp
  moreover have "\<forall>ev\<in>set (?mid @ ?post). \<forall>x. ev \<noteq> Mutex_lock x \<and> ev \<noteq> Mutex_unlock x"
    by auto
  moreover have "\<forall>ev\<in>set X. ev \<noteq> Mutex_lock (self m) \<and> ev \<noteq> Mutex_unlock (self m)"
    using Xa na ancestors_parent [OF par] by auto
  ultimately show ?thesis by blast
qed


text \<open>
  C4, as the code has it.  When the deferred power-down callback powers a module with a
  parent off, it calls \<open>idle\<close> on the parent before it releases its own lock, and when
  \<open>busy()\<close> powers such a module up it calls \<open>busy()\<close> on the parent under its own
  lock.  In both the child's lock is taken first; the parent's lock is taken and
  released while the child's lock is held, with no lock operation in between other than
  those of the parent call; and the release of the child's lock is the last event, after
  the parent call has returned.  For \<open>busy()\<close> the order is stated for a module whose
  address is not that of one of its ancestors.
\<close>

theorem parent_locked_under_child_lock:
  "(refcount m = 0 \<and> powered m \<and> parent m = Some p \<and>
    \<not> (prepare_poweroff (desc m) \<and>
        prepare_poweroff_ret e (tr @ [Mutex_lock (self m)]) (self m) \<noteq> 0) \<and>
    powerdown_handler e m tr = Inr (m', tr') \<longrightarrow>
      both_held {} (self m) (self p) (drop (length tr) tr') \<and>
      (\<exists>mid inner post.
         drop (length tr) tr' =
           Mutex_lock (self m) # mid @ Mutex_lock (self p) # inner
             @ Mutex_unlock (self p) # post @ [Mutex_unlock (self m)] \<and>
         (\<forall>ev\<in>set (mid @ post). \<forall>x. ev \<noteq> Mutex_lock x \<and> ev \<noteq> Mutex_unlock x) \<and>
         (\<forall>ev\<in>set inner. ev \<noteq> Mutex_lock (self m) \<and> ev \<noteq> Mutex_unlock (self m)))) \<and>
   (refcount m = 0 \<and> \<not> powered m \<and> parent m = Some p \<longrightarrow>
      both_held {} (self m) (self p) (drop (length tr) (snd (nvhost_module_busy e m tr)))) \<and>
   (refcount m = 0 \<and> \<not> powered m \<and> parent m = Some p \<and> self m \<notin> set (ancestors m) \<longrightarrow>
      (\<exists>mid inner post.
         drop (length tr) (snd (nvhost_module_busy e m tr)) =
           Mutex_lock (self m) # mid @ Mutex_lock (self p) # inner
             @ Mutex_unlock (self p) # post @ [Mutex_unlock (self m)] \<and>
         (\<forall>ev\<in>set (mid @ post). \<forall>x. ev \<noteq> Mutex_lock x \<and> ev \<noteq> Mutex_unlock x) \<and>
         (\<forall>ev\<in>set inner. ev \<noteq> Mutex_lock (self m) \<and> ev \<noteq> Mutex_unlock (self m))))"
proof (intro conjI impI)
  assume a: "refcount m = 0 \<and> powered m \<and> parent m = Some p \<and>
    \<not> (prepare_poweroff (desc m) \<and>
        prepare_poweroff_ret e (tr @ [Mutex_lock (self m)]) (self m) \<noteq> 0) \<and>
    powerdown_handler e m tr = Inr (m', tr')"
  then show "both_held {} (self m) (self p) (drop (length tr) tr')"
    using handler_locks_parent [of m p e tr m' tr'] by blast
  from a show "\<exists>mid inner post.
         drop (length tr) tr' =
           Mutex_lock (self m) # mid @ Mutex_lock (self p) # inner
             @ Mutex_unlock (self p) # post @ [Mutex_unlock (self m)] \<and>
         (\<forall>ev\<in>set (mid @ post). \<forall>x. ev \<noteq> Mutex_lock x \<and> ev \<noteq> Mutex_unlock x) \<and>
         (\<forall>ev\<in>set inner. ev \<noteq> Mutex_lock (self m) \<and> ev \<noteq> Mutex_unlock (self m))"
    using handler_lock_order [of m p e tr m' tr'] by blast
next
  assume "refcount m = 0 \<and> \<not> powered m \<and> parent m = Some p"
  then show "both_held {} (self m) (self p) (drop (length tr) (snd (nvhost_module_busy e m tr)))"
    using busy_locks_parent [of m p tr e] by blast
next
  assume "refcount m = 0 \<and> \<not> powered m \<and> parent m = Some p \<and> self m \<notin> set (ancestors m)"
  then show "\<exists>mid inner post.
         drop (length tr) (snd (nvhost_module_busy e m tr)) =
           Mutex_lock (self m) # mid @ Mutex_lock (self p) # inner
             @ Mutex_unlock (self p) # post @ [Mutex_unlock (self m)] \<and>
         (\<forall>ev\<in>set (mid @ post). \<forall>x. ev \<noteq> Mutex_lock x \<and> ev \<noteq> Mutex_unlock x) \<and>
         (\<forall>ev\<in>set inner. ev \<noteq> Mutex_lock (self m) \<and> ev \<noteq> Mutex_unlock (self m))"
    using busy_lock_order [of m p tr e] by blast
qed

theorem parent_locked_under_child_lock_witness:
  "powerdown_handler env1 chan3 [Wake_up 2] =
     Inr (Nvhost_module 2 desc0 0 False 2 [Clk 20, Clk 21, Clk_null] [] False
            (Some (Nvhost_module 1 desc0 0 True 2 [Clk 10, Clk 11, Clk_null] [] True None)),
          [Wake_up 2, Mutex_lock 2, Desc_prepare_poweroff 2, Clk_disable (Clk 20),
           Clk_disable (Clk 21), Tegra_powergate_partition 3,
           Mutex_lock 1, Schedule_delayed_work 1 50, Mutex_unlock 1, Wake_up 1,
           Mutex_unlock 2]) \<and>
   both_held {} 2 1
     [Mutex_lock 2, Desc_prepare_poweroff 2, Clk_disable (Clk 20),
      Clk_disable (Clk 21), Tegra_powergate_partition 3,
      Mutex_lock 1, Schedule_delayed_work 1 50, Mutex_unlock 1, Wake_up 1,
      Mutex_unlock 2] \<and>
   (\<exists>mid inner post.
      [Mutex_lock 2, Desc_prepare_poweroff 2, Clk_disable (Clk 20),
       Clk_disable (Clk 21), Tegra_powergate_partition 3,
       Mutex_lock 1, Schedule_delayed_work 1 50, Mutex_unlock 1, Wake_up 1,
       Mutex_unlock 2] =
        Mutex_lock 2 # mid @ Mutex_lock 1 # inner @ Mutex_unlock 1 # post @ [Mutex_unlock 2] \<and>
      (\<forall>ev\<in>set (mid @ post). \<forall>x. ev \<noteq> Mutex_lock x \<and> ev \<noteq> Mutex_unlock x) \<and>
      (\<forall>ev\<in>set inner. ev \<noteq> Mutex_lock 2 \<and> ev \<noteq> Mutex_unlock 2)) \<and>
   snd (nvhost_module_busy env0 chan0 [Wake_up 2]) =
     [Wake_up 2, Mutex_lock 2, Cancel_delayed_work 2,
      Mutex_lock 1, Cancel_delayed_work 1, Tegra_unpowergate_partition 3,
      Clk_enable (Clk 10), Clk_enable (Clk 11), Desc_finalize_poweron 1, Mutex_unlock 1,
      Tegra_unpowergate_partition 3, Clk_enable (Clk 20), Clk_enable (Clk 21),
      Desc_finalize_poweron 2, Mutex_unlock 2] \<and>
   both_held {} 2 1 (drop (length [Wake_up 2]) (snd (nvhost_module_busy env0 chan0 [Wake_up 2]))) \<and>
   (\<exists>mid inner post.
      drop (length [Wake_up 2]) (snd (nvhost_module_busy env0 chan0 [Wake_up 2])) =
        Mutex_lock 2 # mid @ Mutex_lock 1 # inner @ Mutex_unlock 1 # post @ [Mutex_unlock 2] \<and>
      (\<forall>ev\<in>set (mid @ post). \<forall>x. ev \<noteq> Mutex_lock x \<and> ev \<noteq> Mutex_unlock x) \<and>
      (\<forall>ev\<in>set inner. ev \<noteq> Mutex_lock 2 \<and> ev \<noteq> Mutex_unlock 2))"
proof -
  let ?M = "Nvhost_module 2 desc0 0 False 2 [Clk 20, Clk 21, Clk_null] [] False
              (Some (Nvhost_module 1 desc0 0 True 2 [Clk 10, Clk 11, Clk_null] [] True None))"
  let ?T = "[Wake_up 2, Mutex_lock 2, Desc_prepare_poweroff 2, Clk_disable (Clk 20),
             Clk_disable (Clk 21), Tegra_powergate_partition 3,
             Mutex_lock 1, Schedule_delayed_work 1 50, Mutex_unlock 1, Wake_up 1,
             Mutex_unlock 2]"
  have h: "powerdown_handler env1 chan3 [Wake_up 2] = Inr (?M, ?T)"
    by (simp add: powerdown_handler_def chan3_def host1_def desc0_def env1_def env0_def Let_def
          clock_disable_def powergate_def nvhost_module_idle_def nvhost_module_idle_mult_def
          set_powered_def set_powerdown_def set_parent_def set_refcount_def)
  have a: "refcount chan3 = 0 \<and> powered chan3 \<and> parent chan3 = Some host1 \<and>
      \<not> (prepare_poweroff (desc chan3) \<and>
          prepare_poweroff_ret env1 ([Wake_up 2] @ [Mutex_lock (self chan3)]) (self chan3) \<noteq> 0) \<and>
      powerdown_handler env1 chan3 [Wake_up 2] = Inr (?M, ?T)"
    using h by (simp add: chan3_def env1_def)
  have b: "refcount chan0 = 0 \<and> \<not> powered chan0 \<and> parent chan0 = Some host0"
    by (simp add: chan0_def)
  have c: "refcount chan0 = 0 \<and> \<not> powered chan0 \<and> parent chan0 = Some host0 \<and>
      self chan0 \<notin> set (ancestors chan0)"
    by (simp add: chan0_def host0_def)
  have s: "self chan3 = 2" "self host1 = 1" "self chan0 = 2" "self host0 = 1"
    by (simp_all add: chan3_def host1_def chan0_def host0_def)
  note t1 = parent_locked_under_child_lock [of chan3 host1 env1 "[Wake_up 2]" ?M ?T,
      THEN conjunct1, rule_format, OF a, unfolded s]
  note t2 = parent_locked_under_child_lock [of chan0 host0 env0 "[Wake_up 2]",
      THEN conjunct2, THEN conjunct1, rule_format, OF b, unfolded s]
  note t3 = parent_locked_under_child_lock [of chan0 host0 env0 "[Wake_up 2]",
      THEN conjunct2, THEN conjunct2, rule_format, OF c, unfolded s]
  have d: "drop (length [Wake_up 2]) ?T =
      [Mutex_lock 2, Desc_prepare_poweroff 2, Clk_disable (Clk 20),
       Clk_disable (Clk 21), Tegra_powergate_partition 3,
       Mutex_lock 1, Schedule_delayed_work 1 50, Mutex_unlock 1, Wake_up 1,
       Mutex_unlock 2]" by simp
  have bz: "snd (nvhost_module_busy env0 chan0 [Wake_up 2]) =
     [Wake_up 2, Mutex_lock 2, Cancel_delayed_work 2,
      Mutex_lock 1, Cancel_delayed_work 1, Tegra_unpowergate_partition 3,
      Clk_enable (Clk 10), Clk_enable (Clk 11), Desc_finalize_poweron 1, Mutex_unlock 1,
      Tegra_unpowergate_partition 3, Clk_enable (Clk 20), Clk_enable (Clk 21),
      Desc_finalize_poweron 2, Mutex_unlock 2]"
    by (simp add: chan0_def host0_def desc0_def Let_def clock_enable_def unpowergate_def)
  from h t1 [unfolded d] bz t2 t3 show ?thesis by (intro conjI) blast+
qed

text \<open>
  C4, as the specification has it, fails.  The channel is powered with its count at 0;
  its callback powers it off and idles the host.  The host's lock (1) is taken and
  released between the taking and the release of the channel's lock (2), so both are
  held at once, and the parent is idled before, not after, the child's lock is released.
\<close>

theorem powerdown_holds_both_locks_counterexample:
  "powerdown_handler env1 chan3 [] =
     Inr (Nvhost_module 2 desc0 0 False 2 [Clk 20, Clk 21, Clk_null] [] False
            (Some (Nvhost_module 1 desc0 0 True 2 [Clk 10, Clk 11, Clk_null] [] True None)),
          [Mutex_lock 2, Desc_prepare_poweroff 2, Clk_disable (Clk 20),
           Clk_disable (Clk 21), Tegra_powergate_partition 3,
           Mutex_lock 1, Schedule_delayed_work 1 50, Mutex_unlock 1, Wake_up 1,
           Mutex_unlock 2]) \<and>
   both_held {} 2 1
     [Mutex_lock 2, Desc_prepare_poweroff 2, Clk_disable (Clk 20),
      Clk_disable (Clk 21), Tegra_powergate_partition 3,
      Mutex_lock 1, Schedule_delayed_work 1 50, Mutex_unlock 1, Wake_up 1,
      Mutex_unlock 2]"
  by (simp add: powerdown_handler_def chan3_def host1_def desc0_def env1_def env0_def Let_def
        clock_disable_def powergate_def nvhost_module_idle_def nvhost_module_idle_mult_def
        set_powered_def set_powerdown_def set_parent_def set_refcount_def)

end
